theory Spec2Isabelle
  imports Main "HOL-Library.Multiset"
begin

section \<open>Strings of the filter language\<close>

text \<open>
  A JavaScript string is modelled as a \<^typ>\<open>string\<close>: each \<^typ>\<open>char\<close> is one code unit
  in the range 0..255 (ASCII and Latin-1).  Code units above 255 are outside the model.
\<close>

definition is_line_terminator :: "char \<Rightarrow> bool" where
  "is_line_terminator c = (c = CHR 0x0A \<or> c = CHR 0x0D)"

definition is_white_space :: "char \<Rightarrow> bool" where
  "is_white_space c =
     (c = CHR 0x09 \<or> c = CHR 0x0A \<or> c = CHR 0x0B \<or> c = CHR 0x0C \<or> c = CHR 0x0D \<or>
      c = CHR '' '' \<or> c = CHR 0xA0)"

text \<open>\<^verbatim>\<open>String.prototype.trim\<close>.\<close>

definition trim :: "string \<Rightarrow> string" where
  "trim s = rev (dropWhile is_white_space (rev (dropWhile is_white_space s)))"

text \<open>\<^verbatim>\<open>String.prototype.split\<close> with a one-character separator: never an empty array.\<close>

fun split :: "char \<Rightarrow> string \<Rightarrow> string list" where
  "split sep [] = [[]]"
| "split sep (x # xs) =
     (if x = sep then [] # split sep xs
      else (case split sep xs of [] \<Rightarrow> [[x]] | h # t \<Rightarrow> (x # h) # t))"

section \<open>The lexer: \<^verbatim>\<open>terms.match(matchFilters)\<close>\<close>

text \<open>
  \<^verbatim>\<open>matchFilters = /(([,;])|([^()]+\([^)]+\)))/g\<close>.
  \<open>match_clause\<close> is the second alternative tried at the head of the input: a greedy,
  non-empty run of non-parenthesis characters, an opening parenthesis, a greedy non-empty
  run of characters other than the closing parenthesis, and a closing parenthesis.
  Backtracking into a shorter run never helps, since the character after a shorter run
  belongs to the run.  The result is the token and the rest of the input.
\<close>

definition not_paren :: "char \<Rightarrow> bool" where
  "not_paren c = (c \<noteq> CHR ''('' \<and> c \<noteq> CHR '')'')"

definition not_close :: "char \<Rightarrow> bool" where
  "not_close c = (c \<noteq> CHR '')'')"

definition match_clause :: "string \<Rightarrow> (string \<times> string) option" where
  "match_clause s =
     (let f = takeWhile not_paren s; r1 = dropWhile not_paren s in
      if f = [] then None
      else (case r1 of
              [] \<Rightarrow> None
            | p # r2 \<Rightarrow>
                if p \<noteq> CHR ''('' then None
                else (let a = takeWhile not_close r2; r3 = dropWhile not_close r2 in
                      if a = [] then None
                      else (case r3 of
                              [] \<Rightarrow> None
                            | q # r4 \<Rightarrow> Some (f @ [CHR ''(''] @ a @ [CHR '')''], r4)))))"

lemma match_clause_shorter:
  "match_clause s = Some (tok, rest) \<Longrightarrow> length rest < length s"
proof -
  assume a: "match_clause s = Some (tok, rest)"
  have l1: "length (dropWhile not_paren s) \<le> length s"
    by (rule length_dropWhile_le)
  show ?thesis
  proof (cases "dropWhile not_paren s")
    case Nil
    with a show ?thesis by (simp add: match_clause_def Let_def split: if_splits)
  next
    case (Cons p r2)
    have l2: "length (dropWhile not_close r2) \<le> length r2"
      by (rule length_dropWhile_le)
    from a Cons obtain q where r3: "dropWhile not_close r2 = q # rest"
      by (auto simp: match_clause_def Let_def split: if_splits list.splits)
    from l1 Cons have "length r2 < length s" by simp
    moreover from l2 r3 have "length rest < length r2" by simp
    ultimately show ?thesis by simp
  qed
qed

text \<open>
  The global match scans left to right.  At each position the first alternative (a single
  \<open>,\<close> or \<open>;\<close>) is tried before the second; where neither matches, the scan moves on by one
  character.  Every match consumes at least one character.
\<close>

function matchFilters :: "string \<Rightarrow> string list" where
  "matchFilters [] = []"
| "matchFilters (c # cs) =
     (if c = CHR '','' \<or> c = CHR '';'' then [c] # matchFilters cs
      else (case match_clause (c # cs) of
              Some (tok, rest) \<Rightarrow> tok # matchFilters rest
            | None \<Rightarrow> matchFilters cs))"
  by pat_completeness auto
termination
  by (relation "measure length") (auto dest: match_clause_shorter)

text \<open>\<^verbatim>\<open>String.prototype.match\<close> with a global pattern gives \<^verbatim>\<open>null\<close> when nothing matches.\<close>

definition terms_match :: "string \<Rightarrow> string list option" where
  "terms_match terms = (case matchFilters terms of [] \<Rightarrow> None | ts \<Rightarrow> Some ts)"

section \<open>The parser: grouping tokens into OR blocks of AND blocks\<close>

text \<open>
  The loop \<^verbatim>\<open>for (let i = 0; i < filters.length; i += 2)\<close> reads \<^verbatim>\<open>filters[i]\<close> as the
  clause and \<^verbatim>\<open>filters[i - 1]\<close> as its delimiter (\<^verbatim>\<open>undefined\<close> at \<open>i = 0\<close>, here \<open>None\<close>).
  The state is the pair of \<^verbatim>\<open>orBlocks\<close> and \<^verbatim>\<open>andBlocks\<close>.
\<close>

fun group_loop ::
  "string option \<Rightarrow> string list \<Rightarrow> string list list \<Rightarrow> string list
     \<Rightarrow> string list list \<times> string list" where
  "group_loop delimiter [] orBlocks andBlocks = (orBlocks, andBlocks)"
| "group_loop delimiter [filt] orBlocks andBlocks =
     (if delimiter = Some '';'' then (orBlocks @ [andBlocks], [filt])
      else (orBlocks, andBlocks @ [filt]))"
| "group_loop delimiter (filt # d # rest) orBlocks andBlocks =
     (if delimiter = Some '';'' then group_loop (Some d) rest (orBlocks @ [andBlocks]) [filt]
      else group_loop (Some d) rest orBlocks (andBlocks @ [filt]))"

definition group_filters :: "string list \<Rightarrow> string list list" where
  "group_filters filters =
     (case group_loop None filters [] [] of
        (orBlocks, andBlocks) \<Rightarrow> if andBlocks \<noteq> [] then orBlocks @ [andBlocks] else orBlocks)"

text \<open>
  \<^verbatim>\<open>matchParams = /^(.*)\((.*)\)$/\<close>: the dot matches no line terminator, the first group
  is greedy, so the field is everything before the last opening parenthesis, and the raw
  parameters lie between it and the final closing parenthesis.
\<close>

definition match_params :: "string \<Rightarrow> (string \<times> string) option" where
  "match_params s =
     (if s = [] \<or> last s \<noteq> CHR '')'' \<or> (\<exists>c \<in> set s. is_line_terminator c) then None
      else (let r = rev (butlast s) in
            if CHR ''('' \<notin> set r then None
            else Some (rev (tl (dropWhile (\<lambda>c. c \<noteq> CHR ''('') r)),
                       rev (takeWhile (\<lambda>c. c \<noteq> CHR ''('') r))))"

section \<open>The pattern syntax check of \<^verbatim>\<open>new RegExp\<close>\<close>

text \<open>
  \<^verbatim>\<open>new RegExp(pattern, flags)\<close> throws a \<^verbatim>\<open>SyntaxError\<close> for a pattern that is not in the
  ECMAScript pattern grammar (without the \<^verbatim>\<open>u\<close> flag, with the web-compatibility extensions).
  What follows is that grammar for patterns without groups.  A value of the filter
  language lies after the last opening parenthesis of its clause and before the only
  closing one, so no parenthesis reaches the constructor from \<^verbatim>\<open>dataTableFilter\<close>
  (\<open>pattern_has_no_parenthesis\<close> below).
\<close>

definition is_digit :: "char \<Rightarrow> bool" where
  "is_digit c = (c \<in> set ''0123456789'')"

definition is_octal :: "char \<Rightarrow> bool" where
  "is_octal c = (c \<in> set ''01234567'')"

definition is_hex :: "char \<Rightarrow> bool" where
  "is_hex c = (c \<in> set ''0123456789abcdefABCDEF'')"

definition is_letter :: "char \<Rightarrow> bool" where
  "is_letter c = (c \<in> set ''abcdefghijklmnopqrstuvwxyzABCDEFGHIJKLMNOPQRSTUVWXYZ'')"

definition digit_val :: "char \<Rightarrow> nat" where
  "digit_val c = of_char c - 48"

definition hex_val :: "char \<Rightarrow> nat" where
  "hex_val c =
     (if is_digit c then of_char c - 48
      else if c \<in> set ''abcdef'' then of_char c - 87
      else of_char c - 55)"

definition dec_val :: "string \<Rightarrow> int" where
  "dec_val ds = foldl (\<lambda>a d. 10 * a + int (digit_val d)) 0 ds"

text \<open>
  The text after an opening brace, read as a quantifier \<^verbatim>\<open>{n}\<close>, \<^verbatim>\<open>{n,}\<close> or \<^verbatim>\<open>{n,m}\<close>:
  whether the bounds are in order, and how many characters it takes.  \<open>None\<close> when the
  brace opens no quantifier (it is then an ordinary character).
\<close>

definition braced_quantifier :: "string \<Rightarrow> (bool \<times> nat) option" where
  "braced_quantifier s =
     (let ds = takeWhile is_digit s; r = dropWhile is_digit s in
      if ds = [] then None
      else (case r of
              [] \<Rightarrow> None
            | x # r1 \<Rightarrow>
                if x = CHR ''}'' then Some (True, length ds + 1)
                else if x \<noteq> CHR '','' then None
                else (case r1 of
                        [] \<Rightarrow> None
                      | y # r2 \<Rightarrow>
                          if y = CHR ''}'' then Some (True, length ds + 2)
                          else (let es = takeWhile is_digit r1; r3 = dropWhile is_digit r1 in
                                if es = [] then None
                                else (case r3 of
                                        [] \<Rightarrow> None
                                      | z # r4 \<Rightarrow>
                                          if z = CHR ''}''
                                          then Some (dec_val ds \<le> dec_val es,
                                                     length ds + length es + 2)
                                          else None)))))"

text \<open>
  The escape after a backslash inside a character class: the character value it denotes
  (\<open>None\<close> for the class escapes \<^verbatim>\<open>\d \D \s \S \w \W\<close>) and how many characters it takes
  after the escape letter \<open>e\<close>.
\<close>

definition class_escape :: "char \<Rightarrow> string \<Rightarrow> nat option \<times> nat" where
  "class_escape e r =
     (if e \<in> set ''dDsSwW'' then (None, 0)
      else if e = CHR ''b'' then (Some 8, 0)
      else if e = CHR ''t'' then (Some 9, 0)
      else if e = CHR ''n'' then (Some 10, 0)
      else if e = CHR ''v'' then (Some 11, 0)
      else if e = CHR ''f'' then (Some 12, 0)
      else if e = CHR ''r'' then (Some 13, 0)
      else if is_octal e then
        (let more = takeWhile is_octal (take (if e \<in> set ''0123'' then 2 else 1) r)
         in (Some (foldl (\<lambda>a d. 8 * a + digit_val d) 0 (e # more)), length more))
      else if e = CHR ''x'' \<and> length (takeWhile is_hex (take 2 r)) = 2 then
        (Some (foldl (\<lambda>a d. 16 * a + hex_val d) 0 (take 2 r)), 2)
      else if e = CHR ''u'' \<and> length (takeWhile is_hex (take 4 r)) = 4 then
        (Some (foldl (\<lambda>a d. 16 * a + hex_val d) 0 (take 4 r)), 4)
      else (Some (of_char e), 0))"

text \<open>
  One atom of a character class starting with \<open>c\<close>: its value and the number of characters
  taken from \<open>cs\<close>.  A backslash before \<^verbatim>\<open>c\<close> and no control letter stands for itself.
\<close>

definition class_atom :: "char \<Rightarrow> string \<Rightarrow> (nat option \<times> nat) option" where
  "class_atom c cs =
     (if c \<noteq> CHR 0x5C then Some (Some (of_char c), 0)
      else (case cs of
              [] \<Rightarrow> None
            | e # r \<Rightarrow>
                if e = CHR ''c'' then
                  (case r of
                     [] \<Rightarrow> Some (Some 92, 0)
                   | x # _ \<Rightarrow>
                       if is_letter x \<or> is_digit x \<or> x = CHR ''_''
                       then Some (Some (of_char x mod 32), 2)
                       else Some (Some 92, 0))
                else (case class_escape e r of (v, k) \<Rightarrow> Some (v, Suc k))))"

definition range_ok :: "nat option \<Rightarrow> nat option \<Rightarrow> bool" where
  "range_ok a b = (case (a, b) of (Some x, Some y) \<Rightarrow> x \<le> y | _ \<Rightarrow> True)"

text \<open>
  The body of a character class, after the opening bracket and the optional caret: the
  text after the closing bracket, or \<open>None\<close> for a class that is not closed or a range out
  of order.
\<close>

function class_ranges :: "string \<Rightarrow> string option" where
  "class_ranges [] = None"
| "class_ranges (c # cs) =
     (if c = CHR '']'' then Some cs
      else (case class_atom c cs of
              None \<Rightarrow> None
            | Some (va, k) \<Rightarrow>
                (case drop k cs of
                   m # d # ds \<Rightarrow>
                     if m = CHR ''-'' \<and> d \<noteq> CHR '']'' then
                       (case class_atom d ds of
                          None \<Rightarrow> None
                        | Some (vb, j) \<Rightarrow>
                            if range_ok va vb then class_ranges (drop j ds) else None)
                     else class_ranges (drop k cs)
                 | r \<Rightarrow> class_ranges r)))"
  by pat_completeness auto

lemma drop_Cons2_shorter: "drop k xs = a # b # ys \<Longrightarrow> length ys - j < Suc (length xs)"
proof -
  assume h: "drop k xs = a # b # ys"
  have "length (drop k xs) \<le> length xs" by simp
  with h have "length ys < length xs" by simp
  then show ?thesis by linarith
qed

lemma drop_eq_shorter: "drop k xs = ys \<Longrightarrow> length ys < Suc (length xs)"
  by auto

lemma drop_Cons2_shorter': "drop k xs = a # b # ys \<Longrightarrow> Suc (length ys) < length xs"
proof -
  assume h: "drop k xs = a # b # ys"
  have "length (drop k xs) \<le> length xs" by simp
  with h show ?thesis by simp
qed

termination class_ranges
  by (relation "measure length")
     (auto simp: drop_Cons2_shorter drop_Cons2_shorter' drop_eq_shorter)

lemma class_ranges_step:
  assumes "class_ranges (c # cs) = Some r" and "c \<noteq> CHR '']''"
  shows "\<exists>va k. class_atom c cs = Some (va, k) \<and>
           ((\<exists>m d ds j. drop k cs = m # d # ds \<and> class_ranges (drop j ds) = Some r)
            \<or> class_ranges (drop k cs) = Some r)"
proof -
  from assms obtain va k where at: "class_atom c cs = Some (va, k)"
    by (auto split: option.splits)
  show ?thesis
  proof (cases "drop k cs")
    case Nil
    with assms at show ?thesis by simp
  next
    case (Cons m t)
    note c1 = Cons
    show ?thesis
    proof (cases t)
      case Nil
      with assms at c1 show ?thesis by simp
    next
      case (Cons d ds)
      with assms at c1 show ?thesis
        by (cases "m = CHR ''-'' \<and> d \<noteq> CHR '']''") (auto split: option.splits if_splits)
    qed
  qed
qed

lemma class_ranges_shorter: "class_ranges s = Some r \<Longrightarrow> length r \<le> length s"
proof (induction s arbitrary: r rule: length_induct)
  case (1 s)
  show ?case
  proof (cases s)
    case Nil
    with "1.prems" show ?thesis by simp
  next
    case (Cons c cs)
    show ?thesis
    proof (cases "c = CHR '']''")
      case True
      with "1.prems" Cons show ?thesis by simp
    next
      case False
      from class_ranges_step[OF "1.prems"[unfolded Cons] False]
      obtain va k where
        alt: "(\<exists>m d ds j. drop k cs = m # d # ds \<and> class_ranges (drop j ds) = Some r)
            \<or> class_ranges (drop k cs) = Some r" by blast
      have dk: "length (drop k cs) \<le> length cs" by simp
      from alt show ?thesis
      proof
        assume "\<exists>m d ds j. drop k cs = m # d # ds \<and> class_ranges (drop j ds) = Some r"
        then obtain m d ds j where dr: "drop k cs = m # d # ds"
          and rec: "class_ranges (drop j ds) = Some r" by blast
        from dk dr have l: "length ds < length cs" by simp
        have l2: "length (drop j ds) \<le> length ds" by simp
        from l l2 Cons have "length (drop j ds) < length s" by simp
        with "1.IH" rec have "length r \<le> length (drop j ds)" by blast
        with l l2 Cons show ?thesis by simp
      next
        assume rec: "class_ranges (drop k cs) = Some r"
        from dk Cons have "length (drop k cs) < length s" by simp
        with "1.IH" rec have "length r \<le> length (drop k cs)" by blast
        with dk Cons show ?thesis by simp
      qed
    qed
  qed
qed

definition skip_lazy :: "string \<Rightarrow> string" where
  "skip_lazy cs = (case cs of [] \<Rightarrow> [] | x # r \<Rightarrow> if x = CHR ''?'' then r else cs)"

definition skip_caret :: "string \<Rightarrow> string" where
  "skip_caret cs = (case cs of [] \<Rightarrow> [] | x # r \<Rightarrow> if x = CHR ''^'' then r else cs)"

lemma skip_lazy_shorter: "length (skip_lazy cs) \<le> length cs"
  by (simp add: skip_lazy_def split: list.splits)

lemma skip_caret_shorter: "length (skip_caret cs) \<le> length cs"
  by (simp add: skip_caret_def split: list.splits)

text \<open>
  The terms of a pattern, left to right; \<open>q\<close> says that the term just read is an atom
  that a quantifier may follow.  An assertion (\<^verbatim>\<open>^ $ \b \B\<close>), the start of an alternative
  and a quantifier leave nothing to repeat.  A backslash takes the next character with it,
  and is an error at the end of the pattern.  The scan stops at the first error, which is
  an error whatever follows, and at the first parenthesis outside a class and not escaped,
  where it gives no verdict of its own.
\<close>

datatype verdict = WellFormed | IllFormed | HasGroup

function regexp_terms :: "bool \<Rightarrow> string \<Rightarrow> verdict" where
  "regexp_terms q [] = WellFormed"
| "regexp_terms q (c # cs) =
     (if c = CHR ''|'' \<or> c = CHR ''^'' \<or> c = CHR ''$'' then regexp_terms False cs
      else if c = CHR ''*'' \<or> c = CHR ''+'' \<or> c = CHR ''?'' then
        (if q then regexp_terms False (skip_lazy cs) else IllFormed)
      else if c = CHR ''{'' then
        (case braced_quantifier cs of
           None \<Rightarrow> regexp_terms True cs
         | Some (ordered, n) \<Rightarrow>
             if q \<and> ordered then regexp_terms False (skip_lazy (drop n cs)) else IllFormed)
      else if c = CHR 0x5C then
        (case cs of
           [] \<Rightarrow> IllFormed
         | e # r \<Rightarrow> regexp_terms (e \<noteq> CHR ''b'' \<and> e \<noteq> CHR ''B'') r)
      else if c = CHR ''['' then
        (case class_ranges (skip_caret cs) of
           None \<Rightarrow> IllFormed
         | Some r \<Rightarrow> regexp_terms True r)
      else if c = CHR ''('' \<or> c = CHR '')'' then HasGroup
      else regexp_terms True cs)"
  by pat_completeness auto

lemma skip_lazy_drop_shorter: "length (skip_lazy (drop n cs)) \<le> length cs"
proof -
  have "length (skip_lazy (drop n cs)) \<le> length (drop n cs)" by (rule skip_lazy_shorter)
  moreover have "length (drop n cs) \<le> length cs" by simp
  ultimately show ?thesis by linarith
qed

lemma class_ranges_caret_shorter:
  "class_ranges (skip_caret cs) = Some r \<Longrightarrow> length r \<le> length cs"
proof -
  assume "class_ranges (skip_caret cs) = Some r"
  then have "length r \<le> length (skip_caret cs)" by (rule class_ranges_shorter)
  with skip_caret_shorter[of cs] show ?thesis by linarith
qed

termination regexp_terms
  by (relation "measure (\<lambda>(q, s). length s)")
     (auto simp: skip_lazy_drop_shorter class_ranges_caret_shorter less_Suc_eq_le
        skip_lazy_shorter)

text \<open>
  Whether a pattern with a group is well-formed (balanced parentheses, group names,
  lookbehind, references to names) is left to the engine: \<open>engine\<close> is its syntax check,
  a parameter of the model, asked only about patterns on which the scan meets a
  parenthesis.
\<close>

definition regexp_syntax_ok :: "(string \<Rightarrow> bool) \<Rightarrow> string \<Rightarrow> bool" where
  "regexp_syntax_ok engine pattern =
     (case regexp_terms False pattern of
        WellFormed \<Rightarrow> True
      | IllFormed \<Rightarrow> False
      | HasGroup \<Rightarrow> engine pattern)"

section \<open>The clause compiler\<close>

datatype error = TypeError | SyntaxError

text \<open>
  The value stored under a field by \<^verbatim>\<open>match\<close> and \<^verbatim>\<open>contains\<close>: a string, a \<^verbatim>\<open>RegExp\<close> with
  its pattern and flags, or \<^verbatim>\<open>undefined\<close>.
\<close>

datatype payload = PString string | PRegExp string string | PUndefined

text \<open>\<^verbatim>\<open>params.length > 1 ? params : params[0]\<close>.\<close>

datatype opvalue = OneArg string | ArgList "string list" | NoArg

text \<open>
  What one argument of a clause compiles to: \<^verbatim>\<open>{[field]: payload}\<close>, or
  \<^verbatim>\<open>{[field]: {[`$${operation}`]: v}}\<close>, or the value returned by a function that the
  lookup \<^verbatim>\<open>operations[operation]\<close> found on \<^verbatim>\<open>Object.prototype\<close>.
\<close>

datatype predicate =
    FieldPayload string payload
  | FieldOperator string string opvalue
  | BoxedString string
  | PrimString string
  | PrimBool bool

definition new_RegExp :: "(string \<Rightarrow> bool) \<Rightarrow> string \<Rightarrow> string \<Rightarrow> error + payload" where
  "new_RegExp engine pattern flags =
     (if regexp_syntax_ok engine pattern then Inr (PRegExp pattern flags) else Inl SyntaxError)"

text \<open>
  \<^verbatim>\<open>match(field, value, flags = '')\<close> and \<^verbatim>\<open>contains(field, value, flags = '')\<close>.  The
  arguments are the spread \<^verbatim>\<open>...params\<close>: a missing one is \<^verbatim>\<open>undefined\<close> (\<open>None\<close>), which the
  template \<^verbatim>\<open>`^${value}$`\<close> prints as \<^verbatim>\<open>undefined\<close> and \<^verbatim>\<open>new RegExp\<close> reads as the empty
  pattern.
\<close>

definition flags_default :: "string option \<Rightarrow> string" where
  "flags_default flags = (case flags of None \<Rightarrow> [] | Some f \<Rightarrow> f)"

definition operations_match :: "(string \<Rightarrow> bool) \<Rightarrow> string \<Rightarrow> string option \<Rightarrow> string option \<Rightarrow> error + predicate" where
  "operations_match engine field v flags =
     (if flags_default flags = ''i'' then
        (case new_RegExp engine (''^'' @ (case v of None \<Rightarrow> ''undefined'' | Some s \<Rightarrow> s) @ ''$'') ''i'' of
           Inl e \<Rightarrow> Inl e
         | Inr payload \<Rightarrow> Inr (FieldPayload field payload))
      else Inr (FieldPayload field (case v of None \<Rightarrow> PUndefined | Some s \<Rightarrow> PString s)))"

definition operations_contains :: "(string \<Rightarrow> bool) \<Rightarrow> string \<Rightarrow> string option \<Rightarrow> string option \<Rightarrow> error + predicate" where
  "operations_contains engine field v flags =
     (case new_RegExp engine (case v of None \<Rightarrow> [] | Some s \<Rightarrow> s)
             (if flags_default flags = ''i'' then ''ig'' else ''g'') of
        Inl e \<Rightarrow> Inl e
      | Inr payload \<Rightarrow> Inr (FieldPayload field payload))"

definition allowedOperators :: "string list" where
  "allowedOperators =
     [''lte'', ''lt'', ''gt'', ''gte'', ''in'', ''nin'', ''eq'', ''ne'', ''exists'', ''type'']"

text \<open>
  \<^verbatim>\<open>operations\<close> is an object literal, so \<^verbatim>\<open>operations[operation]\<close> also finds the
  properties of \<^verbatim>\<open>Object.prototype\<close>.  Called as \<^verbatim>\<open>operator(field, ...params)\<close>, with no
  receiver, \<^verbatim>\<open>constructor\<close> boxes the field, \<^verbatim>\<open>toString\<close> gives \<^verbatim>\<open>[object Undefined]\<close>,
  \<^verbatim>\<open>isPrototypeOf\<close> gives \<^verbatim>\<open>false\<close> for a string, and the others convert the missing
  receiver to an object, which throws.  \<^verbatim>\<open>__proto__\<close> is the prototype object itself, which
  is not callable.
\<close>

definition prototype_throwing :: "string list" where
  "prototype_throwing =
     [''__proto__'', ''hasOwnProperty'', ''propertyIsEnumerable'', ''toLocaleString'',
      ''valueOf'', ''__defineGetter__'', ''__defineSetter__'', ''__lookupGetter__'',
      ''__lookupSetter__'']"

definition nth_arg :: "string list \<Rightarrow> nat \<Rightarrow> string option" where
  "nth_arg params i = (if i < length params then Some (params ! i) else None)"

text \<open>
  The last \<^verbatim>\<open>map\<close> callback over the arguments of a clause: \<^verbatim>\<open>params.shift()\<close> is the
  operation; \<open>Inr None\<close> is \<^verbatim>\<open>null\<close>.
\<close>

definition compile_params :: "(string \<Rightarrow> bool) \<Rightarrow> string \<Rightarrow> string list \<Rightarrow> error + predicate option" where
  "compile_params engine field params =
     (case params of
        [] \<Rightarrow> Inr None
      | operation # args \<Rightarrow>
          if operation = [] then Inr None
          else if operation = ''match'' then
            map_sum id Some (operations_match engine field (nth_arg args 0) (nth_arg args 1))
          else if operation = ''contains'' then
            map_sum id Some (operations_contains engine field (nth_arg args 0) (nth_arg args 1))
          else if operation = ''constructor'' then Inr (Some (BoxedString field))
          else if operation = ''toString'' then Inr (Some (PrimString ''[object Undefined]''))
          else if operation = ''isPrototypeOf'' then Inr (Some (PrimBool False))
          else if operation \<in> set prototype_throwing then Inl TypeError
          else if operation \<notin> set allowedOperators then Inr None
          else Inr (Some (FieldOperator field (''$'' @ operation)
                 (case args of [] \<Rightarrow> NoArg | [a] \<Rightarrow> OneArg a | _ \<Rightarrow> ArgList args))))"

text \<open>
  The three \<^verbatim>\<open>map\<close> calls before it: split the raw parameters at commas, each argument at
  colons, trim every piece, and read an argument without a colon
  (\<^verbatim>\<open>params.length <= 1\<close>) as \<^verbatim>\<open>['match', params[0]]\<close>; of an empty array that would be
  \<^verbatim>\<open>['match', undefined]\<close>, which \<open>nth_arg\<close> reads as a missing value.
\<close>

definition parse_params :: "string \<Rightarrow> string list list" where
  "parse_params rawParams =
     map (\<lambda>params. case params of [] \<Rightarrow> [''match''] | [v] \<Rightarrow> [''match'', v] | _ \<Rightarrow> params)
       (map (map trim) (map (split CHR '':'') (split CHR '','' rawParams)))"

text \<open>A callback that throws ends the enclosing \<^verbatim>\<open>map\<close>: the first error in order wins.\<close>

fun sequence :: "(error + 'a) list \<Rightarrow> error + 'a list" where
  "sequence [] = Inr []"
| "sequence (x # xs) =
     (case x of
        Inl e \<Rightarrow> Inl e
      | Inr v \<Rightarrow> (case sequence xs of Inl e \<Rightarrow> Inl e | Inr vs \<Rightarrow> Inr (v # vs)))"

text \<open>
  One clause token: \<^verbatim>\<open>[]\<close> when it does not have the shape \<^verbatim>\<open>field(params)\<close>, else the
  compiled arguments that are not \<^verbatim>\<open>null\<close>.
\<close>

definition compile_filter :: "(string \<Rightarrow> bool) \<Rightarrow> string \<Rightarrow> error + predicate list" where
  "compile_filter engine filt =
     (case match_params filt of
        None \<Rightarrow> Inr []
      | Some (field, rawParams) \<Rightarrow>
          (case sequence (map (compile_params engine field) (parse_params rawParams)) of
             Inl e \<Rightarrow> Inl e
           | Inr parsed \<Rightarrow> Inr (map the (filter (\<lambda>v. v \<noteq> None) parsed))))"

text \<open>One AND block: the compiled clauses, concatenated (\<^verbatim>\<open>reduce\<close>).\<close>

definition compile_and :: "(string \<Rightarrow> bool) \<Rightarrow> string list \<Rightarrow> error + predicate list" where
  "compile_and engine andBlock =
     (case sequence (map (compile_filter engine) andBlock) of
        Inl e \<Rightarrow> Inl e
      | Inr compiled \<Rightarrow> Inr (concat compiled))"

section \<open>\<^verbatim>\<open>dataTableFilter\<close>\<close>

text \<open>
  The result is the query itself (\<open>Unchanged\<close>, for \<^verbatim>\<open>return this\<close>) or
  \<^verbatim>\<open>this.find({ $or })\<close>, where \<^verbatim>\<open>$or\<close> is a list of \<^verbatim>\<open>{ $and: [...] }\<close> blocks.
\<close>

datatype query = Unchanged | Find "predicate list list"

definition dataTableFilter :: "(string \<Rightarrow> bool) \<Rightarrow> string \<Rightarrow> error + query" where
  "dataTableFilter engine terms =
     (if terms = [] then Inr Unchanged
      else (case terms_match terms of
              None \<Rightarrow> Inr Unchanged
            | Some filters \<Rightarrow>
                (case sequence (map (compile_and engine) (group_filters filters)) of
                   Inl e \<Rightarrow> Inl e
                 | Inr blocks \<Rightarrow>
                     (let or_blocks = filter (\<lambda>v. v \<noteq> []) blocks
                      in if or_blocks = [] then Inr Unchanged else Inr (Find or_blocks)))))"

section \<open>\<^verbatim>\<open>dataTablePaginate\<close>\<close>

text \<open>
  A JavaScript number is a double.  The model has the doubles that these functions meet
  when their numeric arguments are integers: \<open>Num n\<close> is the double of the integer \<open>n\<close>
  (\<open>Num 0\<close> is \<^verbatim>\<open>+0\<close>), then \<^verbatim>\<open>-0\<close>, the two infinities and \<^verbatim>\<open>NaN\<close>.  A numeric argument
  with a fraction is outside the model.  An argument is a number, a string, \<^verbatim>\<open>null\<close>, or
  \<^verbatim>\<open>undefined\<close> (also when it is omitted).
\<close>

datatype number = Num int | NegZero | PosInf | NegInf | NaN

datatype argument = Undefined | Null | Numeric number | Text string

record options =
  defaultItemsPerPage :: number

text \<open>\<^verbatim>\<open>const options = { defaultItemsPerPage: 10, ..._options }\<close> with no option given.\<close>

definition default_options :: options where
  "default_options = \<lparr>defaultItemsPerPage = Num 10\<rparr>"

text \<open>
  The double nearest to an integer.  Below \<open>2\<^sup>5\<^sup>3\<close> every integer is a double.  From there
  on the 53 leading bits are kept and the rest is rounded to nearest, a tie to the even
  neighbour; a result of \<open>2\<^sup>1\<^sup>0\<^sup>2\<^sup>4\<close> or more is an infinity.
\<close>

function bit_length :: "int \<Rightarrow> nat" where
  "bit_length n = (if n \<le> 0 then 0 else Suc (bit_length (n div 2)))"
  by pat_completeness auto
termination
  by (relation "measure nat") auto

declare bit_length.simps [simp del]

definition round_magnitude :: "int \<Rightarrow> int" where
  "round_magnitude n =
     (if n < 2 ^ 53 then n
      else (let k = bit_length n - 53; q = n div 2 ^ k; r = n mod 2 ^ k; h = 2 ^ (k - 1)
            in (if h < r \<or> (r = h \<and> odd q) then q + 1 else q) * 2 ^ k))"

definition round_double :: "int \<Rightarrow> number" where
  "round_double n =
     (let m = round_magnitude \<bar>n\<bar>
      in if 2 ^ 1024 \<le> m then (if n < 0 then NegInf else PosInf)
         else Num (if n < 0 then - m else m))"

text \<open>
  \<^verbatim>\<open>Number.parseInt(s, 10)\<close>: leading white space is skipped, a sign is read, then the
  longest run of decimal digits; with no digit the result is \<^verbatim>\<open>NaN\<close>.  The result is the
  double nearest to the integer that the digits write (the standard lets an engine read
  the digits after the twentieth as zeros; V8 reads them all), and \<^verbatim>\<open>-0\<close> for a zero with
  a minus sign.
\<close>

definition parseInt :: "string \<Rightarrow> number" where
  "parseInt s =
     (let t = dropWhile is_white_space s;
          neg = (case t of [] \<Rightarrow> False | c # _ \<Rightarrow> c = CHR ''-'');
          u = (case t of [] \<Rightarrow> [] | c # r \<Rightarrow> if c = CHR ''-'' \<or> c = CHR ''+'' then r else t);
          ds = takeWhile is_digit u
      in if ds = [] then NaN
         else if dec_val ds = 0 then (if neg then NegZero else Num 0)
         else round_double (if neg then - dec_val ds else dec_val ds))"

text \<open>\<^verbatim>\<open>x - 1\<close>.\<close>

definition minus_one :: "number \<Rightarrow> number" where
  "minus_one x =
     (case x of
        Num n \<Rightarrow> round_double (n - 1)
      | NegZero \<Rightarrow> Num (- 1)
      | PosInf \<Rightarrow> PosInf
      | NegInf \<Rightarrow> NegInf
      | NaN \<Rightarrow> NaN)"

text \<open>\<^verbatim>\<open>x < 0\<close> is false for \<^verbatim>\<open>NaN\<close> and for both zeros.\<close>

definition less_zero :: "number \<Rightarrow> bool" where
  "less_zero x = (case x of Num n \<Rightarrow> n < 0 | NegInf \<Rightarrow> True | _ \<Rightarrow> False)"

definition is_zero :: "number \<Rightarrow> bool" where
  "is_zero x = (x = Num 0 \<or> x = NegZero)"

definition is_infinite :: "number \<Rightarrow> bool" where
  "is_infinite x = (x = PosInf \<or> x = NegInf)"

definition is_negative :: "number \<Rightarrow> bool" where
  "is_negative x = (case x of Num n \<Rightarrow> n < 0 | NegZero \<Rightarrow> True | NegInf \<Rightarrow> True | _ \<Rightarrow> False)"

text \<open>
  \<^verbatim>\<open>x * y\<close>: \<^verbatim>\<open>NaN\<close> for a \<^verbatim>\<open>NaN\<close> operand and for an infinity times a zero; otherwise the
  sign is negative when the signs of the operands differ, and the value is an infinity, a
  zero, or the double nearest to the product.
\<close>

definition multiply :: "number \<Rightarrow> number \<Rightarrow> number" where
  "multiply x y =
     (if x = NaN \<or> y = NaN then NaN
      else if (is_infinite x \<and> is_zero y) \<or> (is_zero x \<and> is_infinite y) then NaN
      else if is_infinite x \<or> is_infinite y then
        (if is_negative x \<noteq> is_negative y then NegInf else PosInf)
      else if is_zero x \<or> is_zero y then
        (if is_negative x \<noteq> is_negative y then NegZero else Num 0)
      else (case (x, y) of (Num a, Num b) \<Rightarrow> round_double (a * b) | _ \<Rightarrow> NaN))"

text \<open>The query after \<^verbatim>\<open>this.skip(skip).limit(limit)\<close>: the two values it was given.\<close>

record page_spec =
  skip :: number
  limit :: number

text \<open>
  The default parameters \<^verbatim>\<open>_page = 1\<close> and \<^verbatim>\<open>_itemsPerPage = 0\<close> replace \<^verbatim>\<open>undefined\<close>;
  \<^verbatim>\<open>??\<close> then replaces \<^verbatim>\<open>null\<close> (and \<^verbatim>\<open>undefined\<close>, of which none is left).
\<close>

definition dataTablePaginate :: "options \<Rightarrow> argument \<Rightarrow> argument \<Rightarrow> page_spec" where
  "dataTablePaginate opts p ipp =
     (let page_arg = (case p of Undefined \<Rightarrow> Numeric (Num 1) | _ \<Rightarrow> p);
          itemsPerPage_arg = (case ipp of Undefined \<Rightarrow> Numeric (Num 0) | _ \<Rightarrow> ipp);
          page = minus_one
                   (case page_arg of
                      Text s \<Rightarrow> parseInt s
                    | Numeric n \<Rightarrow> n
                    | _ \<Rightarrow> Num 1);
          itemsPerPage =
                   (case itemsPerPage_arg of
                      Text s \<Rightarrow> parseInt s
                    | Numeric n \<Rightarrow> n
                    | _ \<Rightarrow> defaultItemsPerPage opts);
          limit = (if less_zero itemsPerPage then Num 0 else itemsPerPage);
          skip = multiply (if less_zero page then Num 0 else page) limit
      in \<lparr>skip = skip, limit = limit\<rparr>)"

section \<open>\<^verbatim>\<open>dataTableGetFilterList\<close>\<close>

text \<open>
  \<^verbatim>\<open>dataTableGetFilterList\<close> hands a pipeline of ten stages to \<^verbatim>\<open>this.model.aggregate\<close>.  The
  stages run in the store.  They are modelled here as MongoDB documents them, on documents
  that are lists of named values.
\<close>

datatype bson = BNull | BInt int | BStr string | BBool bool | BArray "bson list"
  | BDoc "(string \<times> bson) list"

type_synonym document = "(string \<times> bson) list"

text \<open>A projection is a field path \<^verbatim>\<open>'$path'\<close> or \<^verbatim>\<open>false\<close>.\<close>

datatype projection = Path string | Suppress

text \<open>
  The stages that the pipeline uses: \<^verbatim>\<open>$project\<close>; \<^verbatim>\<open>$unwind\<close> of a top-level field;
  \<^verbatim>\<open>$group\<close> with \<^verbatim>\<open>_id\<close> a top-level field and one accumulator \<^verbatim>\<open>{$sum: 1}\<close>; \<^verbatim>\<open>$sort\<close>
  ascending on one field.
\<close>

datatype stage =
    Project "(string \<times> projection) list"
  | Unwind string
  | Group string string
  | Sort string

text \<open>
  The value of a field path, given by its names: a name selects a field of a document, and
  maps over the elements of an array, leaving out the elements without a value.
\<close>

fun get_path :: "string list \<Rightarrow> bson \<Rightarrow> bson option" where
  "get_path [] v = Some v"
| "get_path (k # ks) (BDoc kvs) =
     (case map_of kvs k of None \<Rightarrow> None | Some v \<Rightarrow> get_path ks v)"
| "get_path (k # ks) (BArray vs) =
     Some (BArray (concat (map (\<lambda>v. case get_path (k # ks) v of None \<Rightarrow> [] | Some x \<Rightarrow> [x]) vs)))"
| "get_path (k # ks) v = None"

text \<open>
  \<^verbatim>\<open>$project\<close> keeps \<^verbatim>\<open>_id\<close> unless the specification names it, then adds each computed
  field whose path has a value.
\<close>

definition project :: "(string \<times> projection) list \<Rightarrow> document \<Rightarrow> document" where
  "project spec d =
     (if ''_id'' \<in> fst ` set spec then []
      else (case map_of d ''_id'' of None \<Rightarrow> [] | Some i \<Rightarrow> [(''_id'', i)])) @
     concat (map (\<lambda>(name, p). case p of
                     Suppress \<Rightarrow> []
                   | Path path \<Rightarrow>
                       (case get_path (split CHR ''.'' path) (BDoc d) of
                          None \<Rightarrow> []
                        | Some v \<Rightarrow> [(name, v)])) spec)"

definition set_field :: "string \<Rightarrow> bson \<Rightarrow> document \<Rightarrow> document" where
  "set_field name v d = map (\<lambda>(k, w). if k = name then (k, v) else (k, w)) d"

text \<open>
  \<^verbatim>\<open>$unwind\<close>: a document whose field is missing, \<^verbatim>\<open>null\<close> or an empty array gives no
  document; an array gives one document for each element; any other value is treated as
  an array of one element.
\<close>

definition unwind :: "string \<Rightarrow> document \<Rightarrow> document list" where
  "unwind name d =
     (case map_of d name of
        None \<Rightarrow> []
      | Some BNull \<Rightarrow> []
      | Some (BArray vs) \<Rightarrow> map (\<lambda>v. set_field name v d) vs
      | Some _ \<Rightarrow> [d])"

definition field_or_null :: "string \<Rightarrow> document \<Rightarrow> bson" where
  "field_or_null name d = (case map_of d name of None \<Rightarrow> BNull | Some v \<Rightarrow> v)"

text \<open>\<^verbatim>\<open>$group\<close>: one document for each distinct key, with the number of documents of that key.\<close>

definition group :: "string \<Rightarrow> string \<Rightarrow> document list \<Rightarrow> document list" where
  "group key acc ds =
     (let keys = map (field_or_null key) ds
      in map (\<lambda>k. [(''_id'', k), (acc, BInt (int (count_list keys k)))]) (remdups keys))"

text \<open>\<^verbatim>\<open>$sort\<close>: a stable sort by the order \<open>le\<close> in which the store compares values.\<close>

fun insort_by :: "('a \<Rightarrow> 'a \<Rightarrow> bool) \<Rightarrow> ('b \<Rightarrow> 'a) \<Rightarrow> 'b \<Rightarrow> 'b list \<Rightarrow> 'b list" where
  "insort_by le f x [] = [x]"
| "insort_by le f x (y # ys) =
     (if le (f x) (f y) then x # y # ys else y # insort_by le f x ys)"

definition sort_by :: "('a \<Rightarrow> 'a \<Rightarrow> bool) \<Rightarrow> ('b \<Rightarrow> 'a) \<Rightarrow> 'b list \<Rightarrow> 'b list" where
  "sort_by le f xs = foldr (insort_by le f) xs []"

fun run_stage :: "(bson \<Rightarrow> bson \<Rightarrow> bool) \<Rightarrow> stage \<Rightarrow> document list \<Rightarrow> document list" where
  "run_stage le (Project spec) ds = map (project spec) ds"
| "run_stage le (Unwind name) ds = concat (map (unwind name) ds)"
| "run_stage le (Group key acc) ds = group key acc ds"
| "run_stage le (Sort name) ds = sort_by le (field_or_null name) ds"

definition aggregate ::
  "(bson \<Rightarrow> bson \<Rightarrow> bool) \<Rightarrow> stage list \<Rightarrow> document list \<Rightarrow> document list" where
  "aggregate le pipeline ds = foldl (\<lambda>acc st. run_stage le st acc) ds pipeline"

text \<open>
  The store rejects the pipeline when the path \<^verbatim>\<open>`$${field}`\<close> is not a field path: a name
  of it is empty or starts with \<^verbatim>\<open>$\<close>, or it has a null character.
\<close>

datatype store_error = InvalidFieldPath

definition valid_field_path :: "string \<Rightarrow> bool" where
  "valid_field_path path =
     (CHR 0x00 \<notin> set path \<and>
      (\<forall>name \<in> set (split CHR ''.'' path). name \<noteq> [] \<and> hd name \<noteq> CHR ''$''))"

text \<open>The pipeline that \<^verbatim>\<open>dataTableGetFilterList\<close> builds for a field.\<close>

definition getFilterList_pipeline :: "string \<Rightarrow> stage list" where
  "getFilterList_pipeline field =
     [Project [(''field'', Path field)],
      Unwind ''field'', Unwind ''field'', Unwind ''field'',
      Unwind ''field'', Unwind ''field'', Unwind ''field'',
      Group ''field'' ''count'',
      Project [(''_id'', Suppress), (''count'', Path ''count''), (''value'', Path ''_id'')],
      Sort ''value'']"

definition dataTableGetFilterList ::
  "(bson \<Rightarrow> bson \<Rightarrow> bool) \<Rightarrow> document list \<Rightarrow> string \<Rightarrow> store_error + document list" where
  "dataTableGetFilterList le collection field =
     (if valid_field_path field
      then Inr (aggregate le (getFilterList_pipeline field) collection)
      else Inl InvalidFieldPath)"

section \<open>Notions used in the statements\<close>



text \<open>The elements at the even positions 0, 2, 4, ... of a list.\<close>

fun evens :: "'a list \<Rightarrow> 'a list" where
  "evens [] = []"
| "evens [x] = [x]"
| "evens (x # y # r) = x # evens r"

text \<open>
  The flattening in the words of the specification: one level replaces an array by its
  elements and leaves any other value as it is; the occurrences of a field are its values
  over all documents, flattened six levels.
\<close>

definition flatten_level :: "bson list \<Rightarrow> bson list" where
  "flatten_level vs = concat (map (\<lambda>v. case v of BArray xs \<Rightarrow> xs | _ \<Rightarrow> [v]) vs)"

definition field_values :: "document list \<Rightarrow> string \<Rightarrow> bson list" where
  "field_values collection field =
     concat (map (\<lambda>d. case get_path (split CHR ''.'' field) (BDoc d) of
                        None \<Rightarrow> [] | Some v \<Rightarrow> [v]) collection)"

definition spec_flattened :: "document list \<Rightarrow> string \<Rightarrow> bson list" where
  "spec_flattened collection field = (flatten_level ^^ 6) (field_values collection field)"

text \<open>
  What the six \<^verbatim>\<open>$unwind\<close> stages leave of the values of a field: each stage replaces an
  array by its elements, drops a \<^verbatim>\<open>null\<close>, and leaves any other value as it is.
\<close>

definition unwound_once :: "bson list \<Rightarrow> bson list" where
  "unwound_once vs =
     concat (map (\<lambda>v. case v of BNull \<Rightarrow> [] | BArray xs \<Rightarrow> xs | _ \<Rightarrow> [v]) vs)"

definition unwound :: "document list \<Rightarrow> string \<Rightarrow> bson list" where
  "unwound collection field = (unwound_once ^^ 6) (field_values collection field)"

text \<open>Identical values grouped and counted, in the shape of the result documents.\<close>

definition value_counts :: "bson list \<Rightarrow> document list" where
  "value_counts occ =
     map (\<lambda>v. [(''count'', BInt (int (count_list occ v))), (''value'', v)]) (remdups occ)"

definition count_of :: "document \<Rightarrow> int" where
  "count_of d = (case map_of d ''count'' of Some (BInt n) \<Rightarrow> n | _ \<Rightarrow> 0)"

text \<open>The values of \<^verbatim>\<open>field\<close> in a stream of documents between two stages.\<close>

definition stream_values :: "document list \<Rightarrow> bson list" where
  "stream_values ds =
     concat (map (\<lambda>d. case map_of d ''field'' of None \<Rightarrow> [] | Some v \<Rightarrow> [v]) ds)"

text \<open>An order on values for a concrete instance: integers by value, anything else as 0.\<close>

definition int_le :: "bson \<Rightarrow> bson \<Rightarrow> bool" where
  "int_le x y = ((case x of BInt a \<Rightarrow> a | _ \<Rightarrow> 0) \<le> (case y of BInt b \<Rightarrow> b | _ \<Rightarrow> 0))"

text \<open>
  The arguments that \<^verbatim>\<open>dataTableFilter\<close> compiles, each with the field of its clause: the
  parsed parameters of the tokens at the even positions that have the shape
  \<^verbatim>\<open>field(params)\<close>.  \<open>pattern_of\<close> is the pattern that an argument hands to
  \<^verbatim>\<open>new RegExp\<close>, if it hands one.
\<close>

definition clause_arguments :: "string \<Rightarrow> (string \<times> string list) list" where
  "clause_arguments terms =
     concat (map (\<lambda>tok. case match_params tok of
                          None \<Rightarrow> []
                        | Some (field, rawParams) \<Rightarrow> map (Pair field) (parse_params rawParams))
                 (evens (matchFilters terms)))"

definition pattern_of :: "string list \<Rightarrow> string option" where
  "pattern_of params =
     (case params of
        [] \<Rightarrow> None
      | operation # args \<Rightarrow>
          if operation = ''match'' \<and> flags_default (nth_arg args 1) = ''i''
          then Some (''^'' @ (case nth_arg args 0 of None \<Rightarrow> ''undefined'' | Some s \<Rightarrow> s) @ ''$'')
          else if operation = ''contains''
          then Some (case nth_arg args 0 of None \<Rightarrow> [] | Some s \<Rightarrow> s)
          else None)"


section \<open>The lexer on a well-formed clause\<close>

lemma match_clause_token:
  assumes f: "f \<noteq> []" "\<forall>c \<in> set f. not_paren c"
    and r: "raw \<noteq> []" "\<forall>c \<in> set raw. not_close c"
  shows "match_clause (f @ ''('' @ raw @ '')'' @ rest) = Some (f @ ''('' @ raw @ '')'', rest)"
proof -
  have t1: "takeWhile not_paren (f @ ''('' @ raw @ '')'' @ rest) = f"
    using f by (simp add: takeWhile_append2 not_paren_def)
  have d1: "dropWhile not_paren (f @ ''('' @ raw @ '')'' @ rest) = ''('' @ raw @ '')'' @ rest"
    using f by (simp add: dropWhile_append2 not_paren_def)
  have t2: "takeWhile not_close (raw @ '')'' @ rest) = raw"
    using r by (simp add: takeWhile_append2 not_close_def)
  have d2: "dropWhile not_close (raw @ '')'' @ rest) = '')'' @ rest"
    using r by (simp add: dropWhile_append2 not_close_def)
  show ?thesis
    unfolding match_clause_def t1 d1 using f(1) r(1) t2 d2 by (simp add: Let_def)
qed

lemma matchFilters_clause:
  assumes f: "f \<noteq> []" "hd f \<noteq> CHR '',''" "hd f \<noteq> CHR '';''" "\<forall>c \<in> set f. not_paren c"
    and r: "raw \<noteq> []" "\<forall>c \<in> set raw. not_close c"
  shows "matchFilters (f @ ''('' @ raw @ '')'' @ rest) = (f @ ''('' @ raw @ '')'') # matchFilters rest"
proof -
  from f(1) obtain c f' where fc: "f = c # f'" by (cases f) auto
  have mc: "match_clause (c # f' @ ''('' @ raw @ '')'' @ rest) = Some (f @ ''('' @ raw @ '')'', rest)"
    using match_clause_token[OF f(1) f(4) r, of rest] fc by simp
  have "matchFilters (c # f' @ ''('' @ raw @ '')'' @ rest) = (f @ ''('' @ raw @ '')'') # matchFilters rest"
    using f(2,3) fc mc by (subst matchFilters.simps) (simp del: matchFilters.simps)
  then show ?thesis using fc by simp
qed

lemma match_params_clause:
  assumes "CHR ''('' \<notin> set raw"
    and "\<forall>c \<in> set (f @ raw). \<not> is_line_terminator c"
  shows "match_params (f @ ''('' @ raw @ '')'') = Some (f, raw)"
proof -
  have b: "butlast (f @ CHR ''('' # raw @ [CHR '')'']) = f @ CHR ''('' # raw"
    by (simp add: butlast_append)
  have tk: "takeWhile (\<lambda>c. c \<noteq> CHR ''('') (rev raw @ CHR ''('' # rev f) = rev raw"
    using assms(1) by (subst takeWhile_append2) auto
  have dr: "dropWhile (\<lambda>c. c \<noteq> CHR ''('') (rev raw @ CHR ''('' # rev f) = CHR ''('' # rev f"
    using assms(1) by (subst dropWhile_append2) auto
  have lt: "\<not> (\<exists>c \<in> set (f @ CHR ''('' # raw @ [CHR '')'']). is_line_terminator c)"
    using assms(2) by (auto simp: is_line_terminator_def)
  have mem: "CHR ''('' \<in> set (rev raw @ CHR ''('' # rev f)" by simp
  have "match_params (f @ CHR ''('' # raw @ [CHR '')'']) = Some (f, raw)"
    unfolding match_params_def b using lt mem by (simp add: Let_def tk dr del: set_append)
  then show ?thesis by simp
qed


section \<open>The two-level grouping\<close>





lemma group_loop_evens:
  "group_loop dl ts orB andB = (ob, ab) \<Longrightarrow> concat ob @ ab = concat orB @ andB @ evens ts"
  by (induction dl ts orB andB arbitrary: ob ab rule: group_loop.induct)
     (auto split: if_splits)

lemma group_filters_evens: "concat (group_filters ts) = evens ts"
proof -
  obtain ob ab where g: "group_loop None ts [] [] = (ob, ab)"
    by (cases "group_loop None ts [] []")
  from group_loop_evens[OF g] g show ?thesis
    by (auto simp: group_filters_def)
qed

lemma evens_nth: "t \<in> set (evens ts) \<Longrightarrow> \<exists>i < length ts. even i \<and> ts ! i = t"
proof (induction ts rule: evens.induct)
  case 1
  then show ?case by simp
next
  case (2 x)
  then show ?case by simp
next
  case (3 x y r)
  show ?case
  proof (cases "t = x")
    case True
    then show ?thesis by (intro exI[of _ 0]) simp
  next
    case False
    with "3.prems" have "t \<in> set (evens r)" by simp
    with "3.IH" obtain i where "i < length r" "even i" "r ! i = t" by blast
    then show ?thesis by (intro exI[of _ "Suc (Suc i)"]) simp
  qed
qed

lemma evens_Cons_nth:
  assumes "t \<in> set (evens (x # ts))"
  shows "t = x \<or> (\<exists>i < length ts. odd i \<and> ts ! i = t)"
proof -
  from evens_nth[OF assms] obtain i where i: "i < length (x # ts)" "even i" "(x # ts) ! i = t"
    by blast
  show ?thesis
  proof (cases i)
    case 0
    with i show ?thesis by simp
  next
    case (Suc j)
    with i have "j < length ts" "odd j" "ts ! j = t" by auto
    then show ?thesis by blast
  qed
qed


section \<open>Clauses that compile to nothing\<close>

lemma sequence_const:
  "\<forall>x \<in> set xs. g x = Inr v \<Longrightarrow> sequence (map g xs) = Inr (replicate (length xs) v)"
  by (induction xs) auto

lemma compile_filter_delimiter:
  "t = '','' \<or> t = '';'' \<Longrightarrow> compile_filter engine t = Inr []"
  by (auto simp: compile_filter_def match_params_def)

lemma compile_and_delimiters:
  assumes "\<forall>t \<in> set b. t = '','' \<or> t = '';''"
  shows "compile_and engine b = Inr []"
proof -
  from assms have "\<forall>t \<in> set b. compile_filter engine t = Inr []"
    by (blast intro: compile_filter_delimiter)
  then have "sequence (map (compile_filter engine) b) = Inr (replicate (length b) [])"
    by (rule sequence_const)
  then show ?thesis by (simp add: compile_and_def)
qed

lemma filter_replicate_Nil: "filter (\<lambda>v. v \<noteq> []) (replicate n []) = []"
  by (induction n) auto

lemma split_parts: "x \<in> set (split sep s) \<Longrightarrow> set x \<subseteq> set s \<and> sep \<notin> set x"
proof (induction s arbitrary: x)
  case Nil
  then show ?case by simp
next
  case (Cons a s)
  show ?case
  proof (cases "a = sep")
    case True
    with Cons show ?thesis by auto
  next
    case False
    show ?thesis
    proof (cases "split sep s")
      case Nil
      with Cons.prems False show ?thesis by simp
    next
      case (Cons h t)
      with Cons.prems False have "x = a # h \<or> x \<in> set t" by simp
      with Cons.IH[of h] Cons.IH[of x] Cons False show ?thesis by auto
    qed
  qed
qed

lemma split_no_sep: "sep \<notin> set s \<Longrightarrow> split sep s = [s]"
  by (induction s) auto

section \<open>AND/OR grouping\<close>







section \<open>A leading delimiter\<close>

text \<open>
  Claim C6, as the code has it.  The loop reads the tokens at the even positions as
  clauses.  A delimiter in front of a filter moves every token by one position: when the
  tokens of \<open>F\<close> at the odd positions are delimiters (clauses separated by single
  delimiters), the filter \<open>d # F\<close> with a leading delimiter \<open>d\<close> compiles to no
  constraint at all, and the query is returned unchanged.
\<close>

theorem leading_delimiter_drops_filter:
  assumes d: "d = CHR '','' \<or> d = CHR '';''"
    and odd: "\<forall>i < length (matchFilters F). odd i \<longrightarrow>
                matchFilters F ! i = '','' \<or> matchFilters F ! i = '';''"
  shows "dataTableFilter engine (d # F) = Inr Unchanged"
proof -
  let ?ts = "matchFilters F"
  have toks: "matchFilters (d # F) = [d] # ?ts" using d by auto
  then have tm: "terms_match (d # F) = Some ([d] # ?ts)" by (simp add: terms_match_def)
  have all: "\<forall>b \<in> set (group_filters ([d] # ?ts)). compile_and engine b = Inr []"
  proof
    fix b assume b: "b \<in> set (group_filters ([d] # ?ts))"
    have "\<forall>t \<in> set b. t = '','' \<or> t = '';''"
    proof
      fix t assume "t \<in> set b"
      with b have "t \<in> set (concat (group_filters ([d] # ?ts)))" by auto
      then have "t \<in> set (evens ([d] # ?ts))" by (simp only: group_filters_evens)
      then have "t = [d] \<or> (\<exists>i < length ?ts. odd i \<and> ?ts ! i = t)" by (rule evens_Cons_nth)
      with d odd show "t = '','' \<or> t = '';''" by auto
    qed
    then show "compile_and engine b = Inr []" by (rule compile_and_delimiters)
  qed
  then have "sequence (map (compile_and engine) (group_filters ([d] # ?ts))) =
        Inr (replicate (length (group_filters ([d] # ?ts))) [])"
    by (rule sequence_const)
  then show ?thesis
    unfolding dataTableFilter_def tm by (simp add: filter_replicate_Nil)
qed

text \<open>
  The claim as stated is false: \<^verbatim>\<open>;a(eq:1)\<close> does not compile to what \<^verbatim>\<open>a(eq:1)\<close> compiles
  to.
\<close>

theorem leading_delimiter_counterexample:
  "\<forall>engine. dataTableFilter engine '';a(eq:1)'' \<noteq> dataTableFilter engine ''a(eq:1)''"
proof
  show "dataTableFilter engine '';a(eq:1)'' \<noteq> dataTableFilter engine ''a(eq:1)''" for engine
    by code_simp
qed

theorem leading_delimiter_drops_filter_witness:
  "\<forall>engine. dataTableFilter engine '';a(eq:1),b(eq:2)'' = Inr Unchanged"
proof
  have toks: "matchFilters ''a(eq:1),b(eq:2)'' = [''a(eq:1)'', '','', ''b(eq:2)'']"
    by code_simp
  have h: "\<forall>i < length (matchFilters ''a(eq:1),b(eq:2)''). odd i \<longrightarrow>
      matchFilters ''a(eq:1),b(eq:2)'' ! i = '','' \<or> matchFilters ''a(eq:1),b(eq:2)'' ! i = '';''"
    unfolding toks by (simp add: nth_Cons' less_Suc_eq numeral_3_eq_3)
  show "dataTableFilter engine '';a(eq:1),b(eq:2)'' = Inr Unchanged" for engine
    using leading_delimiter_drops_filter[of "CHR '';''" "''a(eq:1),b(eq:2)''" engine, OF _ h]
    by simp
qed

section \<open>Filter text that throws\<close>

text \<open>
  Claim C5 is false as stated: the value of \<^verbatim>\<open>contains\<close> goes to \<^verbatim>\<open>new RegExp\<close> as it is
  written, as the source of a pattern.  On \<^verbatim>\<open>a(contains:*)\<close> the constructor throws a
  \<^verbatim>\<open>SyntaxError\<close> (nothing to repeat), and so does \<^verbatim>\<open>dataTableFilter\<close>.
\<close>

theorem regexp_special_character_throws:
  "\<forall>engine. dataTableFilter engine ''a(contains:*)'' = Inl SyntaxError"
proof
  show "dataTableFilter engine ''a(contains:*)'' = Inl SyntaxError" for engine
    by code_simp
qed

lemma sequence_Inl: "sequence (map g xs) = Inl e \<Longrightarrow> \<exists>x \<in> set xs. g x = Inl e"
  by (induction xs) (auto split: sum.splits)

lemma sequence_Inr: "sequence (map g xs) = Inr vs \<Longrightarrow> \<forall>x \<in> set xs. \<exists>v. g x = Inr v"
  by (induction xs arbitrary: vs) (auto split: sum.splits)

lemma compile_params_error:
  assumes "compile_params engine field params = Inl e"
  shows "(e = SyntaxError \<and> (\<exists>p. pattern_of params = Some p \<and> \<not> regexp_syntax_ok engine p))
       \<or> (e = TypeError \<and> set (take 1 params) \<inter> set prototype_throwing \<noteq> {})"
proof (cases params)
  case Nil
  with assms show ?thesis by (simp add: compile_params_def)
next
  case (Cons operation args)
  show ?thesis
  proof (cases "operation = ''match''")
    case True
    with assms Cons show ?thesis
      by (auto simp: compile_params_def pattern_of_def operations_match_def new_RegExp_def
            split: if_splits)
  next
    case nm: False
    show ?thesis
    proof (cases "operation = ''contains''")
      case True
      with assms Cons show ?thesis
        by (auto simp: compile_params_def pattern_of_def operations_contains_def new_RegExp_def
              split: if_splits)
    next
      case False
      with nm assms Cons show ?thesis
        by (auto simp: compile_params_def split: if_splits)
    qed
  qed
qed

lemma compiled_arguments:
  assumes "terms_match terms = Some ts" and "b \<in> set (group_filters ts)" and "tok \<in> set b"
    and "match_params tok = Some (field, rawParams)" and "params \<in> set (parse_params rawParams)"
  shows "(field, params) \<in> set (clause_arguments terms)"
proof -
  from assms(1) have ts: "ts = matchFilters terms"
    by (auto simp: terms_match_def split: list.splits)
  from assms(2,3) have "tok \<in> set (concat (group_filters ts))" by auto
  then have "tok \<in> set (evens ts)" by (simp only: group_filters_evens)
  with assms(4,5) ts show ?thesis by (force simp: clause_arguments_def)
qed

lemma clause_argument_token:
  assumes "(field, params) \<in> set (clause_arguments terms)"
  shows "\<exists>ts b tok rawParams. terms_match terms = Some ts \<and> b \<in> set (group_filters ts)
           \<and> tok \<in> set b \<and> match_params tok = Some (field, rawParams)
           \<and> params \<in> set (parse_params rawParams)"
proof -
  from assms obtain tok rawParams where tok: "tok \<in> set (evens (matchFilters terms))"
    and mp': "Some (field, rawParams) = match_params tok"
    and pr: "params \<in> set (parse_params rawParams)"
    by (auto simp: clause_arguments_def split: option.splits)
  from tok have ne: "matchFilters terms \<noteq> []" by auto
  then have tm: "terms_match terms = Some (matchFilters terms)"
    by (simp add: terms_match_def split: list.splits)
  from tok have "tok \<in> set (concat (group_filters (matchFilters terms)))"
    by (simp only: group_filters_evens)
  then obtain b where "b \<in> set (group_filters (matchFilters terms))" "tok \<in> set b" by auto
  with tm mp' pr show ?thesis by metis
qed

lemma thrown_by_an_argument:
  assumes "dataTableFilter engine terms = Inl e"
  shows "\<exists>(field, params) \<in> set (clause_arguments terms).
           compile_params engine field params = Inl e"
proof -
  from assms obtain ts where tm: "terms_match terms = Some ts"
    and sq: "sequence (map (compile_and engine) (group_filters ts)) = Inl e"
    by (auto simp: dataTableFilter_def Let_def split: if_splits option.splits sum.splits)
  from sequence_Inl[OF sq] obtain b where b: "b \<in> set (group_filters ts)"
    and cb: "compile_and engine b = Inl e" by blast
  from cb have "sequence (map (compile_filter engine) b) = Inl e"
    by (auto simp: compile_and_def split: sum.splits)
  from sequence_Inl[OF this] obtain tok where tok: "tok \<in> set b"
    and ct: "compile_filter engine tok = Inl e" by blast
  from ct obtain field rawParams where mp: "match_params tok = Some (field, rawParams)"
    and sp: "sequence (map (compile_params engine field) (parse_params rawParams)) = Inl e"
    by (auto simp: compile_filter_def split: option.splits sum.splits)
  from sequence_Inl[OF sp] obtain params where pr: "params \<in> set (parse_params rawParams)"
    and cp: "compile_params engine field params = Inl e" by blast
  from compiled_arguments[OF tm b tok mp pr] cp show ?thesis by blast
qed

lemma returned_by_every_argument:
  assumes "dataTableFilter engine terms = Inr q"
    and "(field, params) \<in> set (clause_arguments terms)"
  shows "\<exists>v. compile_params engine field params = Inr v"
proof -
  from clause_argument_token[OF assms(2)] obtain ts b tok rawParams where
    tm: "terms_match terms = Some ts" and b: "b \<in> set (group_filters ts)"
    and tok: "tok \<in> set b" and mp: "match_params tok = Some (field, rawParams)"
    and pr: "params \<in> set (parse_params rawParams)" by blast
  from tm have "terms \<noteq> []" by (auto simp: terms_match_def)
  with assms(1) tm obtain blocks where
    "sequence (map (compile_and engine) (group_filters ts)) = Inr blocks"
    by (auto simp: dataTableFilter_def Let_def split: sum.splits)
  from sequence_Inr[OF this] b obtain v1 where "compile_and engine b = Inr v1" by blast
  then obtain v2 where "sequence (map (compile_filter engine) b) = Inr v2"
    by (auto simp: compile_and_def split: sum.splits)
  from sequence_Inr[OF this] tok obtain v3 where "compile_filter engine tok = Inr v3" by blast
  with mp obtain v4 where
    "sequence (map (compile_params engine field) (parse_params rawParams)) = Inr v4"
    by (auto simp: compile_filter_def split: sum.splits)
  from sequence_Inr[OF this] pr show ?thesis by blast
qed

text \<open>
  Claim C5, as the code has it.  Take a filter text in which no compiled argument has an
  operation name that throws as a property of \<^verbatim>\<open>Object.prototype\<close> (\<open>prototype_throwing\<close>).
  The compiled arguments are those of the tokens at even positions that have the shape
  \<^verbatim>\<open>field(params)\<close>; unmatched parentheses, empty clauses and unknown operation names give
  none or are dropped, and never throw.  Then \<^verbatim>\<open>dataTableFilter\<close> returns if every pattern
  that a compiled argument hands to \<^verbatim>\<open>new RegExp\<close> (the value of a \<^verbatim>\<open>contains\<close>, and of a
  \<^verbatim>\<open>match\<close> with the flag \<^verbatim>\<open>i\<close> between \<^verbatim>\<open>^\<close> and \<^verbatim>\<open>$\<close>) is a well-formed pattern, and
  throws a \<^verbatim>\<open>SyntaxError\<close> if one is not.
\<close>

theorem throws_only_on_rejected_pattern:
  assumes "\<forall>(field, params) \<in> set (clause_arguments terms).
             set (take 1 params) \<inter> set prototype_throwing = {}"
  shows "if \<forall>(field, params) \<in> set (clause_arguments terms).
              \<forall>p. pattern_of params = Some p \<longrightarrow> regexp_syntax_ok engine p
         then \<exists>q. dataTableFilter engine terms = Inr q
         else dataTableFilter engine terms = Inl SyntaxError"
proof (cases "dataTableFilter engine terms")
  case (Inl e)
  from thrown_by_an_argument[OF Inl] obtain field params where
    mem: "(field, params) \<in> set (clause_arguments terms)"
    and cp: "compile_params engine field params = Inl e" by blast
  from assms mem have "set (take 1 params) \<inter> set prototype_throwing = {}" by blast
  with compile_params_error[OF cp] have "e = SyntaxError"
    and "\<exists>p. pattern_of params = Some p \<and> \<not> regexp_syntax_ok engine p" by blast+
  with mem Inl show ?thesis by auto
next
  case (Inr q)
  have "\<forall>p. pattern_of params = Some p \<longrightarrow> regexp_syntax_ok engine p"
    if "(field, params) \<in> set (clause_arguments terms)" for field params
  proof (intro allI impI)
    fix p assume p: "pattern_of params = Some p"
    from returned_by_every_argument[OF Inr that] obtain v where
      v: "compile_params engine field params = Inr v" by blast
    show "regexp_syntax_ok engine p"
    proof (rule ccontr)
      assume "\<not> regexp_syntax_ok engine p"
      with p have "compile_params engine field params = Inl SyntaxError"
        by (cases params)
           (auto simp: compile_params_def pattern_of_def operations_match_def
              operations_contains_def new_RegExp_def split: if_splits)
      with v show False by simp
    qed
  qed
  with Inr show ?thesis by auto
qed

text \<open>
  Two instances: a filter with patterns that use pattern syntax and an unknown operation,
  which returns, and a filter with the unclosed class \<^verbatim>\<open>[\<close>, which throws.
\<close>

theorem throws_only_on_rejected_pattern_witness:
  "\<forall>engine.
     (\<exists>q. dataTableFilter engine ''a(contains:o.b:i),b(foo:1);c(match:[a-z]+:i)'' = Inr q)
   \<and> dataTableFilter engine ''x(foo:1),a(match:[:i)'' = Inl SyntaxError"
proof (intro allI conjI)
  fix engine
  have ca: "clause_arguments ''a(contains:o.b:i),b(foo:1);c(match:[a-z]+:i)'' =
      [(''a'', [''contains'', ''o.b'', ''i'']), (''b'', [''foo'', ''1'']),
       (''c'', [''match'', ''[a-z]+'', ''i''])]"
    by code_simp
  have p1: "pattern_of [''contains'', ''o.b'', ''i''] = Some ''o.b''" by code_simp
  have p2: "pattern_of [''foo'', ''1''] = None" by code_simp
  have p3: "pattern_of [''match'', ''[a-z]+'', ''i''] = Some ''^[a-z]+$''" by code_simp
  have r1: "regexp_syntax_ok engine ''o.b''" by code_simp
  have r3: "regexp_syntax_ok engine ''^[a-z]+$''" by code_simp
  have t: "''contains'' \<notin> set prototype_throwing \<and> ''foo'' \<notin> set prototype_throwing
      \<and> ''match'' \<notin> set prototype_throwing" by code_simp
  have h: "\<forall>(field, params) \<in> set (clause_arguments
                ''a(contains:o.b:i),b(foo:1);c(match:[a-z]+:i)'').
             set (take 1 params) \<inter> set prototype_throwing = {}"
    by (simp add: ca t)
  from throws_only_on_rejected_pattern[OF h, of engine]
  show "\<exists>q. dataTableFilter engine ''a(contains:o.b:i),b(foo:1);c(match:[a-z]+:i)'' = Inr q"
    by (simp add: ca p1 p2 p3 r1 r3)
next
  fix engine
  have ca: "clause_arguments ''x(foo:1),a(match:[:i)'' =
      [(''x'', [''foo'', ''1'']), (''a'', [''match'', ''['', ''i''])]"
    by code_simp
  have p2: "pattern_of [''foo'', ''1''] = None" by code_simp
  have p3: "pattern_of [''match'', ''['', ''i''] = Some ''^[$''" by code_simp
  have r3: "\<not> regexp_syntax_ok engine ''^[$''" by code_simp
  have t: "''foo'' \<notin> set prototype_throwing \<and> ''match'' \<notin> set prototype_throwing"
    by code_simp
  have h: "\<forall>(field, params) \<in> set (clause_arguments ''x(foo:1),a(match:[:i)'').
             set (take 1 params) \<inter> set prototype_throwing = {}"
    by (simp add: ca t)
  from throws_only_on_rejected_pattern[OF h, of engine]
  show "dataTableFilter engine ''x(foo:1),a(match:[:i)'' = Inl SyntaxError"
    by (simp add: ca p2 p3 r3)
qed

section \<open>Pagination defaults\<close>

text \<open>
  Claim C8 says that an absent \<^verbatim>\<open>itemsPerPage\<close> gives the configured default page size.
  With both arguments omitted the default parameter \<^verbatim>\<open>_itemsPerPage = 0\<close> applies first, so
  the limit is 0 and not \<^verbatim>\<open>defaultItemsPerPage\<close>; the page defaults to 1, which gives the
  offset 0.  The fallback \<^verbatim>\<open>?? options.defaultItemsPerPage\<close> is reached by \<^verbatim>\<open>null\<close> only.
\<close>

theorem omitted_itemsPerPage_is_unbounded:
  "dataTablePaginate default_options Undefined Undefined = \<lparr>skip = Num 0, limit = Num 0\<rparr>
   \<and> dataTablePaginate default_options Undefined Null = \<lparr>skip = Num 0, limit = Num 10\<rparr>"
  by (simp add: dataTablePaginate_def default_options_def minus_one_def less_zero_def
        multiply_def is_zero_def is_infinite_def is_negative_def round_double_def
        round_magnitude_def Let_def)

section \<open>Pagination arithmetic\<close>

lemma round_double_exact:
  assumes "\<bar>n\<bar> \<le> 2 ^ 53"
  shows "round_double n = Num n"
proof (cases "\<bar>n\<bar> < 2 ^ 53")
  case True
  have "(2::int) ^ 53 \<le> 2 ^ 1024" by (rule power_increasing) simp_all
  with True have "\<not> (2::int) ^ 1024 \<le> \<bar>n\<bar>" by linarith
  with True show ?thesis
    by (auto simp: round_double_def round_magnitude_def Let_def)
next
  case False
  with assms have "n = 2 ^ 53 \<or> n = - (2 ^ 53)" by linarith
  moreover have "round_double (2 ^ 53) = Num (2 ^ 53)" by code_simp
  moreover have "round_double (- (2 ^ 53)) = Num (- (2 ^ 53))" by code_simp
  ultimately show ?thesis by auto
qed

lemma minus_one_clamped:
  assumes "\<bar>p\<bar> \<le> 2 ^ 53"
  shows "(if less_zero (minus_one (Num p)) then Num 0 else minus_one (Num p)) = Num (max (p - 1) 0)"
proof (cases "p = - (2 ^ 53)")
  case True
  have "round_double (- (2 ^ 53) - 1) = Num (- (2 ^ 53))" by code_simp
  with True show ?thesis by (simp add: minus_one_def less_zero_def)
next
  case False
  with assms have "\<bar>p - 1\<bar> \<le> 2 ^ 53" by linarith
  then have "round_double (p - 1) = Num (p - 1)" by (rule round_double_exact)
  then show ?thesis by (simp add: minus_one_def less_zero_def max_def)
qed

lemma multiply_nonnegative:
  assumes "0 \<le> a" and "0 \<le> b"
  shows "multiply (Num a) (Num b) = round_double (a * b)"
proof (cases "a = 0 \<or> b = 0")
  case True
  have "round_double 0 = Num 0" by (simp add: round_double_def round_magnitude_def)
  with True assms show ?thesis
    by (auto simp: multiply_def is_zero_def is_infinite_def is_negative_def)
next
  case False
  then show ?thesis
    by (simp add: multiply_def is_zero_def is_infinite_def)
qed

text \<open>
  Claim C7, as the code has it.  For integer \<^verbatim>\<open>page\<close> and \<^verbatim>\<open>itemsPerPage\<close> of magnitude at
  most \<open>2\<^sup>5\<^sup>3\<close> the limit is \<open>max itemsPerPage 0\<close> and the offset is the double nearest to
  \<open>max (page - 1) 0\<close> times the limit, which is that product when the product is at most
  \<open>2\<^sup>5\<^sup>3\<close>.  A textual argument is read by \<^verbatim>\<open>parseInt\<close> and then treated as the number it
  gives.  \<^verbatim>\<open>NaN\<close> is not clamped: a \<^verbatim>\<open>NaN\<close> page gives the offset \<^verbatim>\<open>NaN\<close>, a \<^verbatim>\<open>NaN\<close> page
  size gives \<^verbatim>\<open>NaN\<close> for both.  Page 1 with 10 items gives offset 0 and limit 10; page 3
  with 20 items gives offset 40 and limit 20; page 0 with 10 items gives offset 0 and
  limit 10; a page size of -5 gives the limit 0.
\<close>

theorem pagination_arithmetic:
  assumes p: "\<bar>p\<bar> \<le> 2 ^ 53" and i: "\<bar>i\<bar> \<le> 2 ^ 53"
  shows "dataTablePaginate opts (Numeric (Num p)) (Numeric (Num i)) =
     \<lparr>skip = round_double (max (p - 1) 0 * max i 0), limit = Num (max i 0)\<rparr>
   \<and> (max (p - 1) 0 * max i 0 \<le> 2 ^ 53 \<longrightarrow>
        dataTablePaginate opts (Numeric (Num p)) (Numeric (Num i)) =
          \<lparr>skip = Num (max (p - 1) 0 * max i 0), limit = Num (max i 0)\<rparr>)
   \<and> dataTablePaginate opts (Text s) ipp = dataTablePaginate opts (Numeric (parseInt s)) ipp
   \<and> dataTablePaginate opts pg (Text t) = dataTablePaginate opts pg (Numeric (parseInt t))
   \<and> dataTablePaginate opts (Numeric NaN) (Numeric (Num i)) =
        \<lparr>skip = NaN, limit = Num (max i 0)\<rparr>
   \<and> dataTablePaginate opts (Numeric (Num p)) (Numeric NaN) = \<lparr>skip = NaN, limit = NaN\<rparr>
   \<and> dataTablePaginate opts (Numeric (Num 1)) (Numeric (Num 10)) =
        \<lparr>skip = Num 0, limit = Num 10\<rparr>
   \<and> dataTablePaginate opts (Numeric (Num 3)) (Numeric (Num 20)) =
        \<lparr>skip = Num 40, limit = Num 20\<rparr>
   \<and> dataTablePaginate opts (Numeric (Num 0)) (Numeric (Num 10)) =
        \<lparr>skip = Num 0, limit = Num 10\<rparr>
   \<and> limit (dataTablePaginate opts pg (Numeric (Num (- 5)))) = Num 0"
proof -
  have a: "dataTablePaginate opts (Numeric (Num p)) (Numeric (Num i)) =
     \<lparr>skip = round_double (max (p - 1) 0 * max i 0), limit = Num (max i 0)\<rparr>"
    if "\<bar>p\<bar> \<le> 2 ^ 53" for p i
  proof -
    have lim: "(if less_zero (Num i) then Num 0 else Num i) = Num (max i 0)"
      by (simp add: less_zero_def max_def)
    have "multiply (Num (max (p - 1) 0)) (Num (max i 0)) =
          round_double (max (p - 1) 0 * max i 0)"
      by (rule multiply_nonnegative) simp_all
    then show ?thesis
      by (simp add: dataTablePaginate_def Let_def minus_one_clamped[OF that] lim
            split del: if_split cong del: if_weak_cong)
  qed
  have small: "(2::int) ^ 53 = 9007199254740992" by simp
  have ex: "dataTablePaginate opts (Numeric (Num p)) (Numeric (Num i)) =
          \<lparr>skip = Num (max (p - 1) 0 * max i 0), limit = Num (max i 0)\<rparr>"
    if "\<bar>p\<bar> \<le> 2 ^ 53" "max (p - 1) 0 * max i 0 \<le> 2 ^ 53" for p i
  proof -
    have "0 \<le> max (p - 1) 0 * max i 0" by simp
    with that(2) have "\<bar>max (p - 1) 0 * max i 0\<bar> \<le> 2 ^ 53" by linarith
    then have "round_double (max (p - 1) 0 * max i 0) = Num (max (p - 1) 0 * max i 0)"
      by (rule round_double_exact)
    with a[OF that(1)] show ?thesis by simp
  qed
  have b: "dataTablePaginate opts (Text s) ipp = dataTablePaginate opts (Numeric (parseInt s)) ipp"
    by (simp add: dataTablePaginate_def)
  have c: "dataTablePaginate opts pg (Text t) = dataTablePaginate opts pg (Numeric (parseInt t))"
    by (simp add: dataTablePaginate_def)
  have d: "dataTablePaginate opts (Numeric NaN) (Numeric (Num i)) =
        \<lparr>skip = NaN, limit = Num (max i 0)\<rparr>"
    by (simp add: dataTablePaginate_def minus_one_def less_zero_def multiply_def max_def Let_def)
  have e: "dataTablePaginate opts (Numeric (Num p)) (Numeric NaN) = \<lparr>skip = NaN, limit = NaN\<rparr>"
    by (simp add: dataTablePaginate_def less_zero_def multiply_def Let_def)
  have f: "limit (dataTablePaginate opts pg (Numeric (Num (- 5)))) = Num 0"
    by (simp add: dataTablePaginate_def less_zero_def Let_def)
  have e1: "dataTablePaginate opts (Numeric (Num 1)) (Numeric (Num 10)) =
        \<lparr>skip = Num 0, limit = Num 10\<rparr>"
    using ex[of 1 10] by (simp add: small)
  have e2: "dataTablePaginate opts (Numeric (Num 3)) (Numeric (Num 20)) =
        \<lparr>skip = Num 40, limit = Num 20\<rparr>"
    using ex[of 3 20] by (simp add: small)
  have e3: "dataTablePaginate opts (Numeric (Num 0)) (Numeric (Num 10)) =
        \<lparr>skip = Num 0, limit = Num 10\<rparr>"
    using ex[of 0 10] by (simp add: small)
  from a[OF p] ex[OF p] b c d e f e1 e2 e3 show ?thesis by blast
qed

text \<open>
  Two instances: page 94906268 with 94906267 items, where the product 9007199515875289 is
  no double and the offset is its even neighbour, and page 7 with 25 items.
\<close>

theorem pagination_arithmetic_witness:
  "dataTablePaginate default_options (Numeric (Num 94906268)) (Numeric (Num 94906267)) =
     \<lparr>skip = Num 9007199515875288, limit = Num 94906267\<rparr>
   \<and> dataTablePaginate default_options (Numeric (Num 7)) (Numeric (Num 25)) =
     \<lparr>skip = Num 150, limit = Num 25\<rparr>"
proof -
  have r: "round_double 9007199515875289 = Num 9007199515875288" by code_simp
  have h1: "\<bar>94906268 :: int\<bar> \<le> 2 ^ 53" and h2: "\<bar>94906267 :: int\<bar> \<le> 2 ^ 53"
    and h3: "\<bar>7 :: int\<bar> \<le> 2 ^ 53" and h4: "\<bar>25 :: int\<bar> \<le> 2 ^ 53"
    by simp_all
  have "dataTablePaginate default_options (Numeric (Num 94906268)) (Numeric (Num 94906267)) =
     \<lparr>skip = round_double (max (94906268 - 1) 0 * max 94906267 0), limit = Num (max 94906267 0)\<rparr>"
    using pagination_arithmetic[OF h1 h2, of default_options] by blast
  then have big:
    "dataTablePaginate default_options (Numeric (Num 94906268)) (Numeric (Num 94906267)) =
     \<lparr>skip = Num 9007199515875288, limit = Num 94906267\<rparr>"
    using r by simp
  have "max (7 - 1) 0 * max 25 0 \<le> (2::int) ^ 53 \<longrightarrow>
        dataTablePaginate default_options (Numeric (Num 7)) (Numeric (Num 25)) =
          \<lparr>skip = Num (max (7 - 1) 0 * max 25 0), limit = Num (max 25 0)\<rparr>"
    using pagination_arithmetic[OF h3 h4, of default_options] by blast
  then have little: "dataTablePaginate default_options (Numeric (Num 7)) (Numeric (Num 25)) =
     \<lparr>skip = Num 150, limit = Num 25\<rparr>"
    by simp
  from big little show ?thesis by simp
qed

text \<open>
  The claim as stated is false for text that is not numeric: the page \<^verbatim>\<open>abc\<close> gives the
  offset \<^verbatim>\<open>NaN\<close>, not 0, and the page size \<^verbatim>\<open>abc\<close> gives the limit \<^verbatim>\<open>NaN\<close>.
\<close>

theorem pagination_nan_counterexample:
  "dataTablePaginate default_options (Text ''abc'') (Numeric (Num 10)) =
     \<lparr>skip = NaN, limit = Num 10\<rparr>
   \<and> dataTablePaginate default_options (Numeric (Num 1)) (Text ''abc'') =
     \<lparr>skip = NaN, limit = NaN\<rparr>"
proof -
  have "parseInt ''abc'' = NaN" by code_simp
  then show ?thesis
    by (simp add: dataTablePaginate_def minus_one_def less_zero_def multiply_def Let_def)
qed

section \<open>The case-insensitivity flag\<close>

text \<open>
  Claim C4 is false as stated: after a comma, \<open>i\<close> is an argument of its own and compiles
  to a bare match.  \<^verbatim>\<open>name(match:Bob,i)\<close> compiles to the two equalities
  \<^verbatim>\<open>{name: "Bob"}\<close> and \<^verbatim>\<open>{name: "i"}\<close>, and \<^verbatim>\<open>name(contains:ob,i)\<close> to the case-sensitive
  pattern \<^verbatim>\<open>/ob/g\<close> and the equality \<^verbatim>\<open>{name: "i"}\<close>.
\<close>

theorem comma_flag_counterexample:
  "\<forall>engine. dataTableFilter engine ''name(match:Bob,i)'' =
     Inr (Find [[FieldPayload ''name'' (PString ''Bob''), FieldPayload ''name'' (PString ''i'')]])
   \<and> dataTableFilter engine ''name(contains:ob,i)'' =
     Inr (Find [[FieldPayload ''name'' (PRegExp ''ob'' ''g''),
                 FieldPayload ''name'' (PString ''i'')]])"
proof
  show "dataTableFilter engine ''name(match:Bob,i)'' =
     Inr (Find [[FieldPayload ''name'' (PString ''Bob''), FieldPayload ''name'' (PString ''i'')]])
   \<and> dataTableFilter engine ''name(contains:ob,i)'' =
     Inr (Find [[FieldPayload ''name'' (PRegExp ''ob'' ''g''),
                 FieldPayload ''name'' (PString ''i'')]])" for engine
    by code_simp
qed

text \<open>
  Claim C4, as the code has it.  The flag is the piece after a second colon:
  \<^verbatim>\<open>name(match:Bob:i)\<close> compiles to the anchored pattern \<^verbatim>\<open>/^Bob$/i\<close> and
  \<^verbatim>\<open>name(contains:ob:i)\<close> to the pattern \<^verbatim>\<open>/ob/ig\<close>.  For every field and value, the
  argument \<^verbatim>\<open>match:v:i\<close> compiles to the pattern \<^verbatim>\<open>^v$\<close> with the flag \<^verbatim>\<open>i\<close>, and
  \<^verbatim>\<open>contains:v:i\<close> to the pattern \<^verbatim>\<open>v\<close> with the flags \<^verbatim>\<open>ig\<close>, when the pattern is
  well-formed; the constructor throws otherwise.
\<close>

theorem colon_flag_patterns:
  "dataTableFilter engine ''name(match:Bob:i)'' =
     Inr (Find [[FieldPayload ''name'' (PRegExp ''^Bob$'' ''i'')]])
   \<and> dataTableFilter engine ''name(contains:ob:i)'' =
     Inr (Find [[FieldPayload ''name'' (PRegExp ''ob'' ''ig'')]])
   \<and> compile_params engine field [''match'', v, ''i''] =
       (if regexp_syntax_ok engine (''^'' @ v @ ''$'')
        then Inr (Some (FieldPayload field (PRegExp (''^'' @ v @ ''$'') ''i'')))
        else Inl SyntaxError)
   \<and> compile_params engine field [''contains'', v, ''i''] =
       (if regexp_syntax_ok engine v
        then Inr (Some (FieldPayload field (PRegExp v ''ig'')))
        else Inl SyntaxError)"
proof -
  have a: "dataTableFilter engine ''name(match:Bob:i)'' =
     Inr (Find [[FieldPayload ''name'' (PRegExp ''^Bob$'' ''i'')]])"
    by code_simp
  have b: "dataTableFilter engine ''name(contains:ob:i)'' =
     Inr (Find [[FieldPayload ''name'' (PRegExp ''ob'' ''ig'')]])"
    by code_simp
  have c: "compile_params engine field [''match'', v, ''i''] =
       (if regexp_syntax_ok engine (''^'' @ v @ ''$'')
        then Inr (Some (FieldPayload field (PRegExp (''^'' @ v @ ''$'') ''i'')))
        else Inl SyntaxError)"
    by (simp add: compile_params_def operations_match_def new_RegExp_def nth_arg_def
          flags_default_def)
  have d: "compile_params engine field [''contains'', v, ''i''] =
       (if regexp_syntax_ok engine v
        then Inr (Some (FieldPayload field (PRegExp v ''ig'')))
        else Inl SyntaxError)"
    by (simp add: compile_params_def operations_contains_def new_RegExp_def nth_arg_def
          flags_default_def)
  from a b c d show ?thesis by blast
qed

section \<open>The arguments of one clause\<close>

lemma compile_filter_clause:
  assumes "CHR ''('' \<notin> set raw"
    and "\<forall>c \<in> set (f @ raw). \<not> is_line_terminator c"
  shows "compile_filter engine (f @ ''('' @ raw @ '')'') =
     (case sequence (map (compile_params engine f) (parse_params raw)) of
        Inl e \<Rightarrow> Inl e
      | Inr parsed \<Rightarrow> Inr (map the (filter (\<lambda>v. v \<noteq> None) parsed)))"
  unfolding compile_filter_def match_params_clause[OF assms] by simp

lemma dataTableFilter_single_token:
  assumes "tok \<noteq> []" and "matchFilters tok = [tok]"
  shows "dataTableFilter engine tok =
     (case compile_filter engine tok of
        Inl e \<Rightarrow> Inl e
      | Inr ps \<Rightarrow> if ps = [] then Inr Unchanged else Inr (Find [ps]))"
proof -
  have tm: "terms_match tok = Some [tok]" using assms(2) by (simp add: terms_match_def)
  have gf: "group_filters [tok] = [[tok]]" by (simp add: group_filters_def)
  show ?thesis
  proof (cases "compile_filter engine tok")
    case (Inl e)
    then show ?thesis using assms(1)
      by (simp add: dataTableFilter_def tm gf compile_and_def)
  next
    case (Inr ps)
    then show ?thesis using assms(1)
      by (simp add: dataTableFilter_def tm gf compile_and_def)
  qed
qed

lemma dataTableFilter_clause:
  assumes f: "f \<noteq> []" "hd f \<noteq> CHR '',''" "hd f \<noteq> CHR '';''" "\<forall>c \<in> set f. not_paren c"
    and r: "raw \<noteq> []" "\<forall>c \<in> set raw. not_close c"
  shows "dataTableFilter engine (f @ ''('' @ raw @ '')'') =
     (case compile_filter engine (f @ ''('' @ raw @ '')'') of
        Inl e \<Rightarrow> Inl e
      | Inr ps \<Rightarrow> if ps = [] then Inr Unchanged else Inr (Find [ps]))"
proof -
  have "matchFilters (f @ ''('' @ raw @ '')'' @ []) = (f @ ''('' @ raw @ '')'') # matchFilters []"
    by (rule matchFilters_clause[OF f r])
  then have toks: "matchFilters (f @ ''('' @ raw @ '')'') = [f @ ''('' @ raw @ '')'']" by simp
  have ne: "f @ ''('' @ raw @ '')'' \<noteq> []" by simp
  show ?thesis by (rule dataTableFilter_single_token[OF ne toks])
qed

lemma sequence_singletons:
  "(case sequence (map g args) of
      Inl e \<Rightarrow> Inl e
    | Inr parsed \<Rightarrow> Inr (map the (filter (\<lambda>v. v \<noteq> None) parsed))) =
   map_sum id concat
     (sequence (map (\<lambda>a. case sequence [g a] of
                            Inl e \<Rightarrow> Inl e
                          | Inr parsed \<Rightarrow> Inr (map the (filter (\<lambda>v. v \<noteq> None) parsed))) args))"
  by (induction args) (auto split: sum.splits)

lemma parse_params_map:
  "parse_params raw =
     map (\<lambda>arg. case map trim (split CHR '':'' arg) of
                   [] \<Rightarrow> [''match''] | [v] \<Rightarrow> [''match'', v] | ps \<Rightarrow> ps)
       (split CHR '','' raw)"
  by (auto simp: parse_params_def split: list.splits)

lemma parse_params_argument:
  "CHR '','' \<notin> set arg \<Longrightarrow>
   parse_params arg =
     [case map trim (split CHR '':'' arg) of
        [] \<Rightarrow> [''match''] | [v] \<Rightarrow> [''match'', v] | ps \<Rightarrow> ps]"
  by (simp add: parse_params_map split_no_sep)


lemma compile_filter_argument:
  assumes "CHR ''('' \<notin> set arg" and "CHR '','' \<notin> set arg"
    and "\<forall>c \<in> set (f @ arg). \<not> is_line_terminator c"
  shows "compile_filter engine (f @ ''('' @ arg @ '')'') =
     (case sequence [compile_params engine f
              (case map trim (split CHR '':'' arg) of
                 [] \<Rightarrow> [''match''] | [v] \<Rightarrow> [''match'', v] | ps \<Rightarrow> ps)] of
        Inl e \<Rightarrow> Inl e
      | Inr parsed \<Rightarrow> Inr (map the (filter (\<lambda>v. v \<noteq> None) parsed)))"
  unfolding compile_filter_clause[OF assms(1,3)] parse_params_argument[OF assms(2)] by simp

lemma bare_argument:
  assumes "CHR '':'' \<notin> set arg"
  shows "compile_params engine f
           (case map trim (split CHR '':'' arg) of
              [] \<Rightarrow> [''match''] | [v] \<Rightarrow> [''match'', v] | ps \<Rightarrow> ps) =
         Inr (Some (FieldPayload f (PString (trim arg))))"
  using assms
  by (simp add: split_no_sep compile_params_def operations_match_def nth_arg_def
        flags_default_def)

text \<open>
  Claim C10.  Take a clause \<^verbatim>\<open>f(raw)\<close> whose field \<open>f\<close> is not empty, does not start with a
  delimiter and has no parenthesis or line terminator, and whose argument list \<open>raw\<close> is
  not empty and has no parenthesis or line terminator.  Its arguments are the pieces of
  \<open>raw\<close> between commas.  Each argument compiles on its own, to what it compiles to as
  the only argument of a clause on \<open>f\<close>, and the results are concatenated in order (the
  first argument that throws makes the clause throw).  An argument with no colon is a bare
  match: the equality of the field with the trimmed argument.  The filter that consists of
  this clause compiles to one AND group holding all these predicates (or to no filter when
  there is none).
\<close>

theorem arguments_compile_independently:
  assumes f: "f \<noteq> []" "hd f \<noteq> CHR '',''" "hd f \<noteq> CHR '';''"
      "\<forall>c \<in> set f. not_paren c \<and> \<not> is_line_terminator c"
    and r: "raw \<noteq> []" "\<forall>c \<in> set raw. not_paren c \<and> \<not> is_line_terminator c"
  shows "compile_filter engine (f @ ''('' @ raw @ '')'') =
           map_sum id concat
             (sequence (map (\<lambda>arg. compile_filter engine (f @ ''('' @ arg @ '')''))
                          (split CHR '','' raw)))
       \<and> (\<forall>arg \<in> set (split CHR '','' raw). CHR '':'' \<notin> set arg \<longrightarrow>
             compile_filter engine (f @ ''('' @ arg @ '')'') =
               Inr [FieldPayload f (PString (trim arg))])
       \<and> dataTableFilter engine (f @ ''('' @ raw @ '')'') =
           (case compile_filter engine (f @ ''('' @ raw @ '')'') of
              Inl e \<Rightarrow> Inl e
            | Inr ps \<Rightarrow> if ps = [] then Inr Unchanged else Inr (Find [ps]))"
proof -
  let ?norm = "\<lambda>arg. case map trim (split CHR '':'' arg) of
                        [] \<Rightarrow> [''match''] | [v] \<Rightarrow> [''match'', v] | ps \<Rightarrow> ps"
  have rp: "CHR ''('' \<notin> set raw" using r(2) by (auto simp: not_paren_def)
  have lt: "\<forall>c \<in> set (f @ raw). \<not> is_line_terminator c" using f(4) r(2) by auto
  have arg_ok: "CHR ''('' \<notin> set arg \<and> CHR '','' \<notin> set arg
        \<and> (\<forall>c \<in> set (f @ arg). \<not> is_line_terminator c)"
    if "arg \<in> set (split CHR '','' raw)" for arg
  proof -
    from split_parts[OF that] have "set arg \<subseteq> set raw" "CHR '','' \<notin> set arg" by auto
    with rp f(4) r(2) show ?thesis by auto
  qed
  have each: "compile_filter engine (f @ ''('' @ arg @ '')'') =
       (case sequence [compile_params engine f (?norm arg)] of
          Inl e \<Rightarrow> Inl e
        | Inr parsed \<Rightarrow> Inr (map the (filter (\<lambda>v. v \<noteq> None) parsed)))"
    if "arg \<in> set (split CHR '','' raw)" for arg
    using arg_ok[OF that] by (intro compile_filter_argument) auto
  have whole: "compile_filter engine (f @ ''('' @ raw @ '')'') =
       (case sequence (map (\<lambda>arg. compile_params engine f (?norm arg)) (split CHR '','' raw)) of
          Inl e \<Rightarrow> Inl e
        | Inr parsed \<Rightarrow> Inr (map the (filter (\<lambda>v. v \<noteq> None) parsed)))"
    unfolding compile_filter_clause[OF rp lt] parse_params_map by (simp add: comp_def)
  have one: "compile_filter engine (f @ ''('' @ raw @ '')'') =
           map_sum id concat
             (sequence (map (\<lambda>arg. compile_filter engine (f @ ''('' @ arg @ '')''))
                          (split CHR '','' raw)))"
  proof -
    have "map (\<lambda>arg. compile_filter engine (f @ ''('' @ arg @ '')'')) (split CHR '','' raw) =
          map (\<lambda>arg. case sequence [compile_params engine f (?norm arg)] of
                        Inl e \<Rightarrow> Inl e
                      | Inr parsed \<Rightarrow> Inr (map the (filter (\<lambda>v. v \<noteq> None) parsed)))
            (split CHR '','' raw)"
      by (rule map_cong[OF refl]) (rule each)
    then show ?thesis
      unfolding whole by (simp only: sequence_singletons)
  qed
  have two: "\<forall>arg \<in> set (split CHR '','' raw). CHR '':'' \<notin> set arg \<longrightarrow>
             compile_filter engine (f @ ''('' @ arg @ '')'') =
               Inr [FieldPayload f (PString (trim arg))]"
  proof (intro ballI impI)
    fix arg assume a: "arg \<in> set (split CHR '','' raw)" and c: "CHR '':'' \<notin> set arg"
    show "compile_filter engine (f @ ''('' @ arg @ '')'') = Inr [FieldPayload f (PString (trim arg))]"
      unfolding each[OF a] bare_argument[OF c] by simp
  qed
  have rc: "\<forall>c \<in> set raw. not_close c" using r(2) by (auto simp: not_paren_def not_close_def)
  have fp: "\<forall>c \<in> set f. not_paren c" using f(4) by auto
  have three: "dataTableFilter engine (f @ ''('' @ raw @ '')'') =
           (case compile_filter engine (f @ ''('' @ raw @ '')'') of
              Inl e \<Rightarrow> Inl e
            | Inr ps \<Rightarrow> if ps = [] then Inr Unchanged else Inr (Find [ps]))"
    by (rule dataTableFilter_clause[OF f(1,2,3) fp r(1) rc])
  from one two three show ?thesis by blast
qed

text \<open>
  The example of the claim: \<^verbatim>\<open>status(eq:active,pending)\<close> compiles to
  \<^verbatim>\<open>{status: {$eq: "active"}}\<close> and \<^verbatim>\<open>{status: "pending"}\<close> in one AND group.
\<close>

theorem arguments_compile_independently_witness:
  "\<forall>engine.
     dataTableFilter engine ''status(eq:active,pending)'' =
       Inr (Find [[FieldOperator ''status'' ''$eq'' (OneArg ''active''),
                   FieldPayload ''status'' (PString ''pending'')]])
   \<and> compile_filter engine ''status(pending)'' = Inr [FieldPayload ''status'' (PString ''pending'')]"
proof
  fix engine
  have sp: "split CHR '','' ''eq:active,pending'' = [''eq:active'', ''pending'']"
    by code_simp
  have tr: "trim ''pending'' = ''pending''" by code_simp
  have c1: "compile_filter engine ''status(eq:active)'' =
      Inr [FieldOperator ''status'' ''$eq'' (OneArg ''active'')]"
    by code_simp
  from arguments_compile_independently[of "''status''" "''eq:active,pending''" engine]
  show "dataTableFilter engine ''status(eq:active,pending)'' =
       Inr (Find [[FieldOperator ''status'' ''$eq'' (OneArg ''active''),
                   FieldPayload ''status'' (PString ''pending'')]])
   \<and> compile_filter engine ''status(pending)'' = Inr [FieldPayload ''status'' (PString ''pending'')]"
    unfolding sp by (simp add: not_paren_def is_line_terminator_def tr c1)
qed

section \<open>The patterns that reach the constructor\<close>

lemma match_clause_shape:
  assumes "match_clause s = Some (tok, rest)"
  shows "\<exists>f a. tok = f @ ''('' @ a @ '')'' \<and> (\<forall>c \<in> set f. not_paren c)
            \<and> (\<forall>c \<in> set a. not_close c)"
proof -
  from assms obtain p r2 where r1: "dropWhile not_paren s = p # r2"
    by (cases "dropWhile not_paren s") (auto simp: match_clause_def Let_def split: if_splits)
  from assms r1 have tok: "tok = takeWhile not_paren s @ ''('' @ takeWhile not_close r2 @ '')''"
    by (auto simp: match_clause_def Let_def split: if_splits list.splits)
  have "\<forall>c \<in> set (takeWhile not_paren s). not_paren c" by (auto dest: set_takeWhileD)
  moreover have "\<forall>c \<in> set (takeWhile not_close r2). not_close c" by (auto dest: set_takeWhileD)
  ultimately show ?thesis using tok by blast
qed

lemma token_shape:
  "tok \<in> set (matchFilters s) \<Longrightarrow>
   tok = '','' \<or> tok = '';'' \<or>
   (\<exists>f a. tok = f @ ''('' @ a @ '')'' \<and> (\<forall>c \<in> set f. not_paren c) \<and> (\<forall>c \<in> set a. not_close c))"
proof (induction s rule: matchFilters.induct)
  case 1
  then show ?case by simp
next
  case (2 c cs)
  show ?case
  proof (cases "c = CHR '','' \<or> c = CHR '';''")
    case True
    with "2.prems" have "tok = [c] \<or> tok \<in> set (matchFilters cs)" by auto
    with "2.IH"(1)[OF True] True show ?thesis by auto
  next
    case False
    show ?thesis
    proof (cases "match_clause (c # cs)")
      case None
      with "2.prems" False have "tok \<in> set (matchFilters cs)" by simp
      with "2.IH"(2)[OF False None] show ?thesis by simp
    next
      case (Some tr)
      obtain t rest where tr: "tr = (t, rest)" by (cases tr)
      with "2.prems" False Some have "tok = t \<or> tok \<in> set (matchFilters rest)" by simp
      then show ?thesis
      proof
        assume "tok = t"
        with match_clause_shape[OF Some[unfolded tr]] show ?thesis by simp
      next
        assume "tok \<in> set (matchFilters rest)"
        with "2.IH"(3)[OF False Some tr[symmetric]] show ?thesis by simp
      qed
    qed
  qed
qed

lemma set_trim: "set (trim s) \<subseteq> set s"
proof -
  have "set (dropWhile is_white_space (rev (dropWhile is_white_space s)))
        \<subseteq> set (rev (dropWhile is_white_space s))"
    by (auto dest: set_dropWhileD)
  also have "\<dots> \<subseteq> set s" by (auto dest: set_dropWhileD)
  finally show ?thesis by (simp add: trim_def)
qed

lemma raw_params_no_paren:
  assumes tok: "tok \<in> set (matchFilters s)" and mp: "match_params tok = Some (field, raw)"
  shows "\<forall>c \<in> set raw. not_paren c"
proof -
  from mp have ne: "tok \<noteq> []"
    and raw: "raw = rev (takeWhile (\<lambda>c. c \<noteq> CHR ''('') (rev (butlast tok)))"
    by (auto simp: match_params_def Let_def split: if_splits)
  have open_: "CHR ''('' \<notin> set raw"
    unfolding raw by (auto dest: set_takeWhileD)
  have sub: "set raw \<subseteq> set (butlast tok)"
    unfolding raw by (auto dest: set_takeWhileD)
  from mp have "tok \<noteq> '',''" "tok \<noteq> '';''" by (auto simp: match_params_def)
  with token_shape[OF tok] obtain f a where
    shape: "tok = f @ ''('' @ a @ '')''" "\<forall>c \<in> set f. not_paren c" "\<forall>c \<in> set a. not_close c"
    by blast
  have "butlast tok = f @ ''('' @ a" unfolding shape(1) by (simp add: butlast_append)
  with shape(2,3) have "CHR '')'' \<notin> set (butlast tok)"
    by (auto simp: not_paren_def not_close_def)
  with sub open_ show ?thesis by (auto simp: not_paren_def)
qed

lemma parse_params_pieces:
  assumes "params \<in> set (parse_params raw)" and "p \<in> set params"
  shows "p = ''match'' \<or> set p \<subseteq> set raw"
proof -
  from assms(1) obtain arg where arg: "arg \<in> set (split CHR '','' raw)"
    and params: "params = (case map trim (split CHR '':'' arg) of
                   [] \<Rightarrow> [''match''] | [v] \<Rightarrow> [''match'', v] | ps \<Rightarrow> ps)"
    unfolding parse_params_map by auto
  from assms(2) params have "p = ''match'' \<or> p \<in> set (map trim (split CHR '':'' arg))"
    by (auto split: list.splits)
  then show ?thesis
  proof
    assume "p \<in> set (map trim (split CHR '':'' arg))"
    then obtain piece where "piece \<in> set (split CHR '':'' arg)" "p = trim piece" by auto
    with split_parts[of piece "CHR '':''" arg] split_parts[OF arg] set_trim[of piece]
    show ?thesis by blast
  qed simp
qed

lemma nth_arg_in_set: "nth_arg args i = Some v \<Longrightarrow> v \<in> set args"
  by (auto simp: nth_arg_def split: if_splits)

text \<open>
  No pattern that \<^verbatim>\<open>dataTableFilter\<close> hands to \<^verbatim>\<open>new RegExp\<close> has a parenthesis: a token has
  one closing parenthesis, its last character, and the parameters start after its last
  opening parenthesis.
\<close>

lemma pattern_has_no_parenthesis:
  assumes "(field, params) \<in> set (clause_arguments terms)"
    and "pattern_of params = Some p"
  shows "\<forall>c \<in> set p. not_paren c"
proof -
  from assms(1) obtain tok raw where tok: "tok \<in> set (evens (matchFilters terms))"
    and mp': "Some (field, raw) = match_params tok"
    and pr: "params \<in> set (parse_params raw)"
    by (auto simp: clause_arguments_def split: option.splits)
  from mp' have mp: "match_params tok = Some (field, raw)" by simp
  from evens_nth[OF tok] have "tok \<in> set (matchFilters terms)" by auto
  from raw_params_no_paren[OF this mp] have raw: "\<forall>c \<in> set raw. not_paren c" .
  have piece: "\<forall>c \<in> set q. not_paren c" if "q \<in> set params" for q
  proof -
    from parse_params_pieces[OF pr that] show ?thesis
    proof
      assume "q = ''match''"
      then show ?thesis by (simp add: not_paren_def)
    next
      assume "set q \<subseteq> set raw"
      with raw show ?thesis by blast
    qed
  qed
  from assms(2) obtain operation args where pa: "params = operation # args"
    by (cases params) (auto simp: pattern_of_def)
  define v where "v = (case nth_arg args 0 of None \<Rightarrow> ''undefined'' | Some s \<Rightarrow> s)"
  define w where "w = (case nth_arg args 0 of None \<Rightarrow> [] | Some s \<Rightarrow> s)"
  have arg0: "\<forall>c \<in> set s. not_paren c" if "nth_arg args 0 = Some s" for s
    using piece[of s] nth_arg_in_set[OF that] pa by simp
  have v: "\<forall>c \<in> set v. not_paren c"
  proof (cases "nth_arg args 0")
    case None
    then show ?thesis by (simp add: v_def not_paren_def)
  next
    case (Some s)
    with arg0[OF Some] show ?thesis by (simp add: v_def)
  qed
  have w: "\<forall>c \<in> set w. not_paren c"
  proof (cases "nth_arg args 0")
    case None
    then show ?thesis by (simp add: w_def)
  next
    case (Some s)
    with arg0[OF Some] show ?thesis by (simp add: w_def)
  qed
  from assms(2) pa have "p = ''^'' @ v @ ''$'' \<or> p = w"
    unfolding pattern_of_def v_def w_def by (simp split: if_splits)
  then show ?thesis
  proof
    assume "p = ''^'' @ v @ ''$''"
    with v show ?thesis by (simp add: not_paren_def)
  next
    assume "p = w"
    with w show ?thesis by simp
  qed
qed

lemma class_ranges_subset: "class_ranges s = Some r \<Longrightarrow> set r \<subseteq> set s"
proof (induction s arbitrary: r rule: length_induct)
  case (1 s)
  show ?case
  proof (cases s)
    case Nil
    with "1.prems" show ?thesis by simp
  next
    case (Cons c cs)
    show ?thesis
    proof (cases "c = CHR '']''")
      case True
      with "1.prems" Cons show ?thesis by auto
    next
      case False
      from class_ranges_step[OF "1.prems"[unfolded Cons] False]
      obtain va k where
        alt: "(\<exists>m d ds j. drop k cs = m # d # ds \<and> class_ranges (drop j ds) = Some r)
            \<or> class_ranges (drop k cs) = Some r" by blast
      have dk: "length (drop k cs) \<le> length cs" by simp
      have sk: "set (drop k cs) \<subseteq> set cs" by (rule set_drop_subset)
      from alt show ?thesis
      proof
        assume "\<exists>m d ds j. drop k cs = m # d # ds \<and> class_ranges (drop j ds) = Some r"
        then obtain m d ds j where dr: "drop k cs = m # d # ds"
          and rec: "class_ranges (drop j ds) = Some r" by blast
        from dk dr have l: "length ds < length cs" by simp
        have l2: "length (drop j ds) \<le> length ds" by simp
        from l l2 Cons have "length (drop j ds) < length s" by simp
        with "1.IH" rec have "set r \<subseteq> set (drop j ds)" by blast
        moreover have "set (drop j ds) \<subseteq> set ds" by (rule set_drop_subset)
        moreover from sk dr have "set ds \<subseteq> set cs" by auto
        ultimately show ?thesis using Cons by auto
      next
        assume rec: "class_ranges (drop k cs) = Some r"
        from dk Cons have "length (drop k cs) < length s" by simp
        with "1.IH" rec have "set r \<subseteq> set (drop k cs)" by blast
        with sk Cons show ?thesis by auto
      qed
    qed
  qed
qed

lemma skip_lazy_subset: "set (skip_lazy cs) \<subseteq> set cs"
  by (auto simp: skip_lazy_def split: list.splits if_splits)

lemma skip_caret_subset: "set (skip_caret cs) \<subseteq> set cs"
  by (auto simp: skip_caret_def split: list.splits if_splits)

text \<open>The scan gives a verdict of its own on every pattern without a parenthesis.\<close>

lemma no_parenthesis_no_group:
  "\<forall>c \<in> set p. not_paren c \<Longrightarrow> regexp_terms q p \<noteq> HasGroup"
proof (induction p arbitrary: q rule: length_induct)
  case (1 p)
  have ih: "regexp_terms q' r \<noteq> HasGroup" if "length r < length p" "set r \<subseteq> set p" for q' r
    using "1.IH" "1.prems" that by blast
  show ?case
  proof (cases p)
    case Nil
    then show ?thesis by simp
  next
    case (Cons c cs)
    have np: "c \<noteq> CHR ''(''" "c \<noteq> CHR '')''" using "1.prems" Cons by (auto simp: not_paren_def)
    have a: "regexp_terms q' cs \<noteq> HasGroup" for q' using ih[of cs] Cons by auto
    have b: "regexp_terms q' (skip_lazy (drop n cs)) \<noteq> HasGroup" for q' n
    proof -
      have "length (skip_lazy (drop n cs)) \<le> length cs" by (rule skip_lazy_drop_shorter)
      moreover have "set (skip_lazy (drop n cs)) \<subseteq> set cs"
        using skip_lazy_subset[of "drop n cs"] set_drop_subset[of n cs] by blast
      ultimately show ?thesis using ih[of "skip_lazy (drop n cs)"] Cons by auto
    qed
    have b0: "regexp_terms q' (skip_lazy cs) \<noteq> HasGroup" for q' using b[of q' 0] by simp
    have c: "regexp_terms q' r \<noteq> HasGroup" if "cs = e # r" for q' e r
      using ih[of r] Cons that by auto
    have d: "regexp_terms q' r \<noteq> HasGroup" if "class_ranges (skip_caret cs) = Some r" for q' r
    proof -
      from class_ranges_caret_shorter[OF that] have "length r \<le> length cs" .
      moreover from class_ranges_subset[OF that] skip_caret_subset[of cs]
      have "set r \<subseteq> set cs" by blast
      ultimately show ?thesis using ih[of r] Cons by auto
    qed
    show ?thesis unfolding Cons
      using np a b b0 c d
      by (auto split: option.splits list.splits simp del: regexp_terms.simps simp add: regexp_terms.simps(2)[of q c cs])
  qed
qed

lemma regexp_syntax_ok_engine:
  "\<forall>c \<in> set p. not_paren c \<Longrightarrow> regexp_syntax_ok engine p = regexp_syntax_ok engine' p"
  using no_parenthesis_no_group[of p False]
  by (cases "regexp_terms False p") (simp_all add: regexp_syntax_ok_def)


lemma compile_params_engine:
  assumes "\<forall>p. pattern_of params = Some p \<longrightarrow> (\<forall>c \<in> set p. not_paren c)"
  shows "compile_params engine field params = compile_params engine' field params"
proof (cases params)
  case Nil
  then show ?thesis by (simp add: compile_params_def)
next
  case (Cons operation args)
  have eq: "regexp_syntax_ok engine p = regexp_syntax_ok engine' p"
    if "pattern_of params = Some p" for p
    using assms that regexp_syntax_ok_engine[of p engine engine'] by blast
  show ?thesis
  proof (cases "operation = ''match''")
    case True
    show ?thesis
    proof (cases "flags_default (nth_arg args 1) = ''i''")
      case i: True
      with True Cons have
        "pattern_of params =
           Some (''^'' @ (case nth_arg args 0 of None \<Rightarrow> ''undefined'' | Some s \<Rightarrow> s) @ ''$'')"
        by (simp add: pattern_of_def)
      from eq[OF this] True Cons show ?thesis
        by (simp add: compile_params_def operations_match_def new_RegExp_def)
    next
      case False
      with True Cons show ?thesis
        by (simp add: compile_params_def operations_match_def)
    qed
  next
    case nm: False
    show ?thesis
    proof (cases "operation = ''contains''")
      case True
      with nm Cons have
        "pattern_of params = Some (case nth_arg args 0 of None \<Rightarrow> [] | Some s \<Rightarrow> s)"
        by (simp add: pattern_of_def)
      from eq[OF this] True nm Cons show ?thesis
        by (simp add: compile_params_def operations_contains_def new_RegExp_def)
    next
      case False
      with nm Cons show ?thesis by (simp add: compile_params_def)
    qed
  qed
qed

text \<open>
  So the engine is never asked by \<^verbatim>\<open>dataTableFilter\<close>: its result is the same whatever the
  engine's check of patterns with groups.
\<close>

lemma filter_ignores_engine:
  "dataTableFilter engine terms = dataTableFilter engine' terms"
proof (cases "terms_match terms")
  case None
  then show ?thesis by (simp add: dataTableFilter_def)
next
  case (Some ts)
  have cf: "compile_filter engine tok = compile_filter engine' tok"
    if b: "b \<in> set (group_filters ts)" and tok: "tok \<in> set b" for b tok
  proof (cases "match_params tok")
    case None
    then show ?thesis by (simp add: compile_filter_def)
  next
    case (Some fr)
    obtain field rawParams where fr: "fr = (field, rawParams)" by (cases fr)
    have "compile_params engine field params = compile_params engine' field params"
      if "params \<in> set (parse_params rawParams)" for params
    proof (rule compile_params_engine, intro allI impI)
      fix p assume p: "pattern_of params = Some p"
      from Some fr have mp: "match_params tok = Some (field, rawParams)" by simp
      from compiled_arguments[OF \<open>terms_match terms = Some ts\<close> b tok mp that]
      have "(field, params) \<in> set (clause_arguments terms)" .
      from pattern_has_no_parenthesis[OF this p] show "\<forall>c \<in> set p. not_paren c" .
    qed
    then have m: "map (compile_params engine field) (parse_params rawParams) =
               map (compile_params engine' field) (parse_params rawParams)"
      by simp
    show ?thesis by (simp add: compile_filter_def Some fr m)
  qed
  have "compile_and engine b = compile_and engine' b" if "b \<in> set (group_filters ts)" for b
  proof -
    from cf[OF that] have m: "map (compile_filter engine) b = map (compile_filter engine') b"
      by simp
    show ?thesis by (simp add: compile_and_def m)
  qed
  then have m: "map (compile_and engine) (group_filters ts) =
             map (compile_and engine') (group_filters ts)"
    by simp
  show ?thesis by (simp add: dataTableFilter_def Some m)
qed

section \<open>The pass-through law\<close>

text \<open>
  When every token at an even position compiles to nothing, the query is returned
  unchanged.  This covers the empty string, a string with no token, and clauses that do not
  have the shape \<^verbatim>\<open>field(params)\<close>.  An argument compiles to nothing when its operation is
  not \<^verbatim>\<open>match\<close>, \<^verbatim>\<open>contains\<close> or an allowed operator, provided that it is not the name of
  a property of \<^verbatim>\<open>Object.prototype\<close> either.
\<close>

lemma compile_and_nothing:
  assumes "\<forall>t \<in> set b. compile_filter engine t = Inr []"
  shows "compile_and engine b = Inr []"
proof -
  from assms have "sequence (map (compile_filter engine) b) = Inr (replicate (length b) [])"
    by (rule sequence_const)
  then show ?thesis by (simp add: compile_and_def)
qed

lemma pass_through_law:
  assumes "\<forall>t \<in> set (evens (matchFilters terms)). compile_filter engine t = Inr []"
  shows "dataTableFilter engine terms = Inr Unchanged"
proof (cases "terms_match terms")
  case None
  then show ?thesis by (simp add: dataTableFilter_def)
next
  case (Some ts)
  then have ts: "ts = matchFilters terms"
    by (auto simp: terms_match_def split: list.splits)
  have "\<forall>b \<in> set (group_filters ts). compile_and engine b = Inr []"
  proof
    fix b assume b: "b \<in> set (group_filters ts)"
    have "\<forall>t \<in> set b. compile_filter engine t = Inr []"
    proof
      fix t assume "t \<in> set b"
      with b have "t \<in> set (concat (group_filters ts))" by auto
      then have "t \<in> set (evens ts)" by (simp only: group_filters_evens)
      with assms ts show "compile_filter engine t = Inr []" by simp
    qed
    then show "compile_and engine b = Inr []" by (rule compile_and_nothing)
  qed
  then have "sequence (map (compile_and engine) (group_filters ts)) =
        Inr (replicate (length (group_filters ts)) [])"
    by (rule sequence_const)
  then show ?thesis
    unfolding dataTableFilter_def Some by (simp add: filter_replicate_Nil)
qed

lemma malformed_clause_dropped: "match_params t = None \<Longrightarrow> compile_filter engine t = Inr []"
  by (simp add: compile_filter_def)

lemma unknown_operation_dropped:
  assumes "operation \<notin> set ([''match'', ''contains''] @ allowedOperators)"
    and "operation \<notin> set ([''constructor'', ''toString'', ''isPrototypeOf''] @ prototype_throwing)"
  shows "compile_params engine field (operation # args) = Inr None"
  using assms by (simp add: compile_params_def)

text \<open>
  Claim C1 says that a filter whose every clause uses an unknown operation name leaves the
  query unchanged.  \<^verbatim>\<open>toString\<close> is no operation of the filter language, but
  \<^verbatim>\<open>operations['toString']\<close> is the function inherited from \<^verbatim>\<open>Object.prototype\<close>: it is
  called, its result \<^verbatim>\<open>[object Undefined]\<close> is not \<^verbatim>\<open>null\<close>, and the filter
  \<^verbatim>\<open>a(toString:1)\<close> constrains the query with \<^verbatim>\<open>{$or: [{$and: ["[object Undefined]"]}]}\<close>.
\<close>

theorem inherited_operation_adds_constraint:
  "dataTableFilter engine ''a(toString:1)'' = Inr (Find [[PrimString ''[object Undefined]'']])"
  by code_simp

section \<open>The operation dispatch\<close>

text \<open>
  An allowed operator compiles to \<^verbatim>\<open>{field: {$operator: v}}\<close>, where \<open>v\<close> is the remaining
  argument when there is one and the list of the remaining arguments when there are more.
  For a well-formed field and values \<open>vs\<close> written after the operator and separated by
  colons, the single-clause filter compiles to that one predicate, on the trimmed values.
\<close>

lemma comparison_dispatch:
  assumes "operation \<in> set allowedOperators"
  shows "compile_params engine field (operation # args) =
     Inr (Some (FieldOperator field (''$'' @ operation)
        (case args of [] \<Rightarrow> NoArg | [a] \<Rightarrow> OneArg a | _ \<Rightarrow> ArgList args)))"
proof -
  have "operation \<noteq> []" "operation \<noteq> ''match''" "operation \<noteq> ''contains''"
    "operation \<noteq> ''constructor''" "operation \<noteq> ''toString''" "operation \<noteq> ''isPrototypeOf''"
    "operation \<notin> set prototype_throwing"
    using assms by (auto simp: allowedOperators_def prototype_throwing_def)
  with assms show ?thesis by (simp add: compile_params_def)
qed

lemma split_append_sep:
  "sep \<notin> set a \<Longrightarrow> split sep (a @ sep # rest) = a # split sep rest"
  by (induction a) auto

lemma split_join:
  assumes "sep \<notin> set a" and "\<forall>v \<in> set vs. sep \<notin> set v"
  shows "split sep (a @ concat (map ((#) sep) vs)) = a # vs"
  using assms
proof (induction vs arbitrary: a)
  case Nil
  then show ?case by (simp add: split_no_sep)
next
  case (Cons v vs)
  have "split sep (a @ sep # v @ concat (map ((#) sep) vs)) =
        a # split sep (v @ concat (map ((#) sep) vs))"
    using Cons.prems(1) by (rule split_append_sep)
  also have "split sep (v @ concat (map ((#) sep) vs)) = v # vs"
    using Cons.prems(2) by (intro Cons.IH) auto
  finally show ?case by simp
qed

lemma allowed_operators_plain:
  "\<forall>operation \<in> set allowedOperators.
     trim operation = operation \<and> operation \<noteq> [] \<and>
     (\<forall>c \<in> set operation. c \<noteq> CHR '':'' \<and> c \<noteq> CHR '','' \<and> not_paren c
            \<and> \<not> is_line_terminator c)"
  by code_simp

lemma allowed_operator_plain:
  assumes "operation \<in> set allowedOperators"
  shows "trim operation = operation" and "operation \<noteq> []"
    and "\<forall>c \<in> set operation. c \<noteq> CHR '':'' \<and> c \<noteq> CHR '','' \<and> not_paren c
            \<and> \<not> is_line_terminator c"
  using assms allowed_operators_plain by blast+

lemma comparison_clause:
  assumes f: "f \<noteq> []" "hd f \<noteq> CHR '',''" "hd f \<noteq> CHR '';''"
      "\<forall>c \<in> set f. not_paren c \<and> \<not> is_line_terminator c"
    and op: "operation \<in> set allowedOperators"
    and vs: "vs \<noteq> []"
      "\<forall>v \<in> set vs. \<forall>c \<in> set v. c \<noteq> CHR '':'' \<and> c \<noteq> CHR '','' \<and> not_paren c
            \<and> \<not> is_line_terminator c"
  shows "dataTableFilter engine (f @ ''('' @ (operation @ concat (map ((#) CHR '':'') vs)) @ '')'') =
     Inr (Find [[FieldOperator f (''$'' @ operation)
                  (case map trim vs of [a] \<Rightarrow> OneArg a | as \<Rightarrow> ArgList as)]])"
proof -
  define raw where "raw = operation @ concat (map ((#) CHR '':'') vs)"
  note plain = allowed_operator_plain[OF op]
  have chars: "c \<noteq> CHR '','' \<and> not_paren c \<and> \<not> is_line_terminator c" if "c \<in> set raw" for c
  proof -
    from that consider "c \<in> set operation" | "c = CHR '':''" | v where "v \<in> set vs" "c \<in> set v"
      unfolding raw_def by (auto split: if_splits)
    then show ?thesis
    proof cases
      case 1
      with plain(3) show ?thesis by blast
    next
      case 2
      then show ?thesis by (simp add: not_paren_def is_line_terminator_def)
    next
      case 3
      with vs(2) show ?thesis by blast
    qed
  qed
  have ne: "raw \<noteq> []" using plain(2) by (simp add: raw_def)
  have rp: "CHR ''('' \<notin> set raw" using chars not_paren_def by blast
  have rc: "\<forall>c \<in> set raw. not_close c" using chars not_paren_def not_close_def by blast
  have nc: "CHR '','' \<notin> set raw" using chars by blast
  have lt: "\<forall>c \<in> set (f @ raw). \<not> is_line_terminator c"
  proof
    fix c assume "c \<in> set (f @ raw)"
    then have "c \<in> set f \<or> c \<in> set raw" by simp
    with f(4) chars show "\<not> is_line_terminator c" by blast
  qed
  have fp: "\<forall>c \<in> set f. not_paren c" using f(4) by blast
  have o1: "CHR '':'' \<notin> set operation" using plain(3) by blast
  have o2: "\<forall>v \<in> set vs. CHR '':'' \<notin> set v" using vs(2) by blast
  have sp: "split CHR '':'' raw = operation # vs"
    unfolding raw_def using o1 o2 by (rule split_join)
  obtain v vs' where vv: "vs = v # vs'" using vs(1) by (cases vs) auto
  have pp: "parse_params raw = [operation # map trim vs]"
    unfolding parse_params_argument[OF nc] sp using plain(1) vv by simp
  have cf: "compile_filter engine (f @ ''('' @ raw @ '')'') =
      Inr [FieldOperator f (''$'' @ operation)
             (case map trim vs of [] \<Rightarrow> NoArg | [a] \<Rightarrow> OneArg a | _ \<Rightarrow> ArgList (map trim vs))]"
    unfolding compile_filter_clause[OF rp lt] pp by (simp add: comparison_dispatch[OF op])
  have df: "dataTableFilter engine (f @ ''('' @ raw @ '')'') =
      Inr (Find [[FieldOperator f (''$'' @ operation)
             (case map trim vs of [] \<Rightarrow> NoArg | [a] \<Rightarrow> OneArg a | _ \<Rightarrow> ArgList (map trim vs))]])"
    unfolding dataTableFilter_clause[OF f(1,2,3) fp ne rc] cf by simp
  have "(case map trim vs of [] \<Rightarrow> NoArg | [a] \<Rightarrow> OneArg a | _ \<Rightarrow> ArgList (map trim vs)) =
        (case map trim vs of [a] \<Rightarrow> OneArg a | as \<Rightarrow> ArgList as)"
    unfolding vv by (cases vs') simp_all
  with df show ?thesis unfolding raw_def by simp
qed

lemma comparison_clause_example:
  "dataTableFilter engine ''age(in:1: 2 :3)'' =
     Inr (Find [[FieldOperator ''age'' ''$in'' (ArgList [''1'', ''2'', ''3''])]])"
  by code_simp

text \<open>
  Claim C3 says that an operation name outside the fixed set is dropped without error.
  \<^verbatim>\<open>valueOf\<close> is outside the set, but \<^verbatim>\<open>operations['valueOf']\<close> is the function inherited
  from \<^verbatim>\<open>Object.prototype\<close>; called without a receiver it throws a \<^verbatim>\<open>TypeError\<close>, and so does
  \<^verbatim>\<open>dataTableFilter\<close> on \<^verbatim>\<open>a(valueOf:1)\<close>.  On \<^verbatim>\<open>a(constructor:1)\<close> the inherited
  \<^verbatim>\<open>Object\<close> is called and its result, the boxed string of the field, is kept in the AND
  group.
\<close>

theorem inherited_operation_throws:
  "dataTableFilter engine ''a(valueOf:1)'' = Inl TypeError
   \<and> dataTableFilter engine ''a(constructor:1)'' = Inr (Find [[BoxedString ''a'']])"
  by code_simp

section \<open>Distinct values of a field\<close>

lemma mset_insort_by: "mset (insort_by le f x xs) = add_mset x (mset xs)"
  by (induction xs) auto

lemma mset_sort_by: "mset (sort_by le f xs) = mset xs"
  by (induction xs) (auto simp: sort_by_def mset_insort_by)

lemma set_insort_by: "set (insort_by le f x xs) = insert x (set xs)"
  by (induction xs) auto

lemma sorted_insort_by:
  assumes total: "\<forall>x y. le x y \<or> le y x" and trans: "\<forall>x y z. le x y \<and> le y z \<longrightarrow> le x z"
    and "sorted_wrt le (map f xs)"
  shows "sorted_wrt le (map f (insort_by le f x xs))"
  using assms(3)
proof (induction xs)
  case Nil
  then show ?case by simp
next
  case (Cons y ys)
  from Cons.prems have tl: "sorted_wrt le (map f ys)" and hd: "\<forall>z \<in> set ys. le (f y) (f z)"
    by simp_all
  show ?case
  proof (cases "le (f x) (f y)")
    case True
    have "\<forall>z \<in> set ys. le (f x) (f z)"
    proof
      fix z assume "z \<in> set ys"
      with hd have "le (f y) (f z)" by blast
      with True trans show "le (f x) (f z)" by blast
    qed
    with True Cons.prems show ?thesis by simp
  next
    case False
    with total have yx: "le (f y) (f x)" by blast
    have "sorted_wrt le (map f (insort_by le f x ys))" using tl by (rule Cons.IH)
    moreover have "\<forall>z \<in> set (insort_by le f x ys). le (f y) (f z)"
      using hd yx by (simp add: set_insort_by)
    ultimately show ?thesis using False by simp
  qed
qed

lemma sorted_sort_by:
  assumes "\<forall>x y. le x y \<or> le y x" and "\<forall>x y z. le x y \<and> le y z \<longrightarrow> le x z"
  shows "sorted_wrt le (map f (sort_by le f xs))"
proof (induction xs)
  case Nil
  then show ?case by (simp add: sort_by_def)
next
  case (Cons x xs)
  have "sort_by le f (x # xs) = insort_by le f x (sort_by le f xs)" by (simp add: sort_by_def)
  with sorted_insort_by[OF assms Cons] show ?case by simp
qed


lemma stream_values_append: "stream_values (xs @ ys) = stream_values xs @ stream_values ys"
  by (simp add: stream_values_def)

lemma unwound_once_append: "unwound_once (xs @ ys) = unwound_once xs @ unwound_once ys"
  by (simp add: unwound_once_def)

lemma project_field:
  "map_of (project [(''field'', Path p)] d) ''field'' = get_path (split CHR ''.'' p) (BDoc d)"
  by (simp add: project_def split: option.splits)

lemma stream_values_project:
  "stream_values (map (project [(''field'', Path p)]) ds) = field_values ds p"
  by (induction ds) (simp_all add: stream_values_def field_values_def project_field)

lemma map_of_set_field:
  "map_of d name = Some w \<Longrightarrow> map_of (set_field name v d) name = Some v"
  by (induction d) (auto simp: set_field_def split: if_splits)

lemma unwind_values_one:
  "stream_values (unwind ''field'' d) = unwound_once (stream_values [d])"
proof (cases "map_of d ''field''")
  case None
  then show ?thesis by (simp add: unwind_def stream_values_def unwound_once_def)
next
  case (Some w)
  show ?thesis
  proof (cases w)
    case (BArray vs)
    have "stream_values (map (\<lambda>v. set_field ''field'' v d) vs) = concat (map (\<lambda>v. [v]) vs)"
      using map_of_set_field[OF Some] by (simp add: stream_values_def comp_def)
    then have "stream_values (map (\<lambda>v. set_field ''field'' v d) vs) = vs"
      by (simp add: concat_map_singleton)
    with Some BArray show ?thesis
      by (simp add: unwind_def stream_values_def unwound_once_def)
  qed (use Some in \<open>simp_all add: unwind_def stream_values_def unwound_once_def\<close>)
qed

lemma unwind_values:
  "stream_values (concat (map (unwind ''field'') ds)) = unwound_once (stream_values ds)"
proof (induction ds)
  case Nil
  then show ?case by (simp add: stream_values_def unwound_once_def)
next
  case (Cons d ds)
  have "stream_values (d # ds) = stream_values [d] @ stream_values ds"
    by (simp add: stream_values_def)
  with Cons unwind_values_one[of d] show ?case
    by (simp add: stream_values_append unwound_once_append)
qed

lemma unwind_has_field:
  assumes "e \<in> set (concat (map (unwind ''field'') ds))"
  shows "map_of e ''field'' \<noteq> None"
proof -
  from assms obtain d where d: "d \<in> set ds" and e: "e \<in> set (unwind ''field'' d)" by auto
  show ?thesis
  proof (cases "map_of d ''field''")
    case None
    with e show ?thesis by (simp add: unwind_def)
  next
    case (Some w)
    show ?thesis
    proof (cases w)
      case (BArray vs)
      with e Some obtain v where "e = set_field ''field'' v d" by (auto simp: unwind_def)
      with map_of_set_field[OF Some] show ?thesis by simp
    qed (use e Some in \<open>auto simp: unwind_def\<close>)
  qed
qed

lemma keys_stream_values:
  "\<forall>d \<in> set ds. map_of d ''field'' \<noteq> None \<Longrightarrow>
   map (field_or_null ''field'') ds = stream_values ds"
  by (induction ds) (auto simp: stream_values_def field_or_null_def)

lemma project_group:
  "project [(''_id'', Suppress), (''count'', Path ''count''), (''value'', Path ''_id'')]
     [(''_id'', k), (''count'', n)] = [(''count'', n), (''value'', k)]"
  by (simp add: project_def)

lemma pipeline_result:
  "aggregate le (getFilterList_pipeline field) collection =
     sort_by le (field_or_null ''value'') (value_counts (unwound collection field))"
proof -
  define s0 where "s0 = map (project [(''field'', Path field)]) collection"
  define u where "u = (\<lambda>ds. concat (map (unwind ''field'') ds))"
  define s6 where "s6 = u (u (u (u (u (u s0)))))"
  have pow: "(unwound_once ^^ 6) x =
      unwound_once (unwound_once (unwound_once (unwound_once (unwound_once (unwound_once x)))))"
    for x by (simp add: eval_nat_numeral)
  have v6: "stream_values s6 = unwound collection field"
    unfolding s6_def u_def s0_def unwound_def pow
    by (simp only: unwind_values stream_values_project)
  have "\<forall>d \<in> set s6. map_of d ''field'' \<noteq> None"
    unfolding s6_def u_def using unwind_has_field by blast
  then have keys: "map (field_or_null ''field'') s6 = unwound collection field"
    using v6 by (simp add: keys_stream_values)
  have "map (project [(''_id'', Suppress), (''count'', Path ''count''), (''value'', Path ''_id'')])
          (group ''field'' ''count'' s6) = value_counts (unwound collection field)"
    by (simp add: group_def keys value_counts_def project_group comp_def Let_def)
  then show ?thesis
    by (simp add: aggregate_def getFilterList_pipeline_def s6_def u_def s0_def)
qed


lemma value_of_value_counts:
  "map (field_or_null ''value'') (value_counts occ) = remdups occ"
  by (simp add: value_counts_def field_or_null_def comp_def)

lemma count_of_value_counts:
  "map count_of (value_counts occ) = map (\<lambda>v. int (count_list occ v)) (remdups occ)"
  by (simp add: value_counts_def count_of_def comp_def)

lemma sum_counts_remdups:
  "sum_list (map (\<lambda>v. int (count_list occ v)) (remdups occ)) = int (length occ)"
proof -
  have "sum_list (map (\<lambda>v. int (count_list occ v)) (remdups occ)) =
        (\<Sum>v \<in> set occ. int (count_list occ v))"
    by (simp add: sum_list_distinct_conv_sum_set)
  also have "\<dots> = int (\<Sum>v \<in> set occ. count_list occ v)" by simp
  also have "(\<Sum>v \<in> set occ. count_list occ v) = length occ"
    by (rule sum_count_set) simp_all
  finally show ?thesis .
qed

lemma six_levels:
  "(flatten_level ^^ 6) [((\<lambda>v. BArray [v]) ^^ 6) x] = [x]"
  "(flatten_level ^^ 6) [((\<lambda>v. BArray [v]) ^^ 7) x] = [BArray [x]]"
  "(unwound_once ^^ 6) [((\<lambda>v. BArray [v]) ^^ 7) x] = [BArray [x]]"
  by (simp_all add: eval_nat_numeral flatten_level_def unwound_once_def)

text \<open>A stage of \<^verbatim>\<open>$unwind\<close> is one level of flattening on values without \<^verbatim>\<open>null\<close>.\<close>

lemma unwound_once_flatten_level:
  "BNull \<notin> set vs \<Longrightarrow> unwound_once vs = flatten_level vs"
proof (induction vs)
  case Nil
  then show ?case by (simp add: unwound_once_def flatten_level_def)
next
  case (Cons v vs)
  then have "v \<noteq> BNull" and "unwound_once vs = flatten_level vs" by auto
  then show ?case
    by (cases v) (simp_all add: unwound_once_def flatten_level_def)
qed

lemma unwound_flatten_levels:
  "\<forall>k < n. BNull \<notin> set ((flatten_level ^^ k) vs) \<Longrightarrow>
   (unwound_once ^^ n) vs = (flatten_level ^^ n) vs"
proof (induction n)
  case 0
  then show ?case by simp
next
  case (Suc n)
  then have ih: "(unwound_once ^^ n) vs = (flatten_level ^^ n) vs" by simp
  from Suc.prems have "BNull \<notin> set ((flatten_level ^^ n) vs)" by simp
  then have "unwound_once ((flatten_level ^^ n) vs) = flatten_level ((flatten_level ^^ n) vs)"
    by (rule unwound_once_flatten_level)
  with ih show ?case by simp
qed

text \<open>
  Claim C9, as the code has it.  For a valid field path and a store whose comparison of
  values \<open>le\<close> is total and transitive, \<^verbatim>\<open>dataTableGetFilterList\<close> returns the
  \<^verbatim>\<open>{count, value}\<close> documents of the occurrences that the six \<^verbatim>\<open>$unwind\<close> stages leave:
  the values of the field over the documents that have it, where each of the six stages
  replaces an array by its elements and drops a \<^verbatim>\<open>null\<close>.  Each distinct occurrence is the
  value of exactly one document, the values are in ascending order, and the counts add up
  to the number of occurrences.  When no \<^verbatim>\<open>null\<close> is met in the first six levels of the
  flattening, the occurrences are the values flattened six levels, as the specification
  says.  The flattening is six levels deep: a value nested in six arrays is flattened to
  the value, and of a value nested in seven arrays the innermost array is left as it is.
\<close>

theorem distinct_value_aggregation:
  assumes valid: "valid_field_path field"
    and total: "\<forall>x y. le x y \<or> le y x"
    and trans: "\<forall>x y z. le x y \<and> le y z \<longrightarrow> le x z"
  shows "\<exists>result.
      dataTableGetFilterList le collection field = Inr result
    \<and> mset result = mset (value_counts (unwound collection field))
    \<and> distinct (map (field_or_null ''value'') result)
    \<and> set (map (field_or_null ''value'') result) = set (unwound collection field)
    \<and> sorted_wrt le (map (field_or_null ''value'') result)
    \<and> sum_list (map count_of result) = int (length (unwound collection field))
    \<and> ((\<forall>k < 6. BNull \<notin> set ((flatten_level ^^ k) (field_values collection field))) \<longrightarrow>
         unwound collection field = spec_flattened collection field)
    \<and> (flatten_level ^^ 6) [((\<lambda>v. BArray [v]) ^^ 6) x] = [x]
    \<and> (flatten_level ^^ 6) [((\<lambda>v. BArray [v]) ^^ 7) x] = [BArray [x]]
    \<and> (unwound_once ^^ 6) [((\<lambda>v. BArray [v]) ^^ 7) x] = [BArray [x]]"
proof -
  define occ where "occ = unwound collection field"
  define result where "result = sort_by le (field_or_null ''value'') (value_counts occ)"
  have r: "dataTableGetFilterList le collection field = Inr result"
    using valid by (simp add: dataTableGetFilterList_def pipeline_result result_def occ_def)
  have m: "mset result = mset (value_counts occ)"
    by (simp add: result_def mset_sort_by)
  then have mv: "mset (map (field_or_null ''value'') result) = mset (remdups occ)"
    by (metis mset_map value_of_value_counts)
  have d: "distinct (map (field_or_null ''value'') result)"
    using mset_eq_imp_distinct_iff[OF mv] by simp
  have s: "set (map (field_or_null ''value'') result) = set occ"
    using mset_eq_setD[OF mv] by simp
  have so: "sorted_wrt le (map (field_or_null ''value'') result)"
    unfolding result_def using total trans by (rule sorted_sort_by)
  have "mset (map count_of result) = mset (map count_of (value_counts occ))"
    using m by (metis mset_map)
  then have "sum_list (map count_of result) = sum_list (map count_of (value_counts occ))"
    by (metis sum_mset_sum_list)
  then have c: "sum_list (map count_of result) = int (length occ)"
    by (simp add: count_of_value_counts sum_counts_remdups)
  have f: "(\<forall>k < 6. BNull \<notin> set ((flatten_level ^^ k) (field_values collection field))) \<longrightarrow>
         occ = spec_flattened collection field"
    unfolding occ_def unwound_def spec_flattened_def
    using unwound_flatten_levels[of 6 "field_values collection field"] by blast
  from r m d s so c f six_levels[of x] show ?thesis unfolding occ_def by blast
qed

text \<open>
  The claim as stated is false when a \<^verbatim>\<open>null\<close> is met while flattening.  Of the two
  documents \<^verbatim>\<open>{tags: [1, null]}\<close> and \<^verbatim>\<open>{tags: null}\<close> the field flattened six levels has
  the three occurrences \<^verbatim>\<open>1\<close>, \<^verbatim>\<open>null\<close>, \<^verbatim>\<open>null\<close>; the first \<^verbatim>\<open>$unwind\<close> drops the second
  document, the second \<^verbatim>\<open>$unwind\<close> drops the \<^verbatim>\<open>null\<close> element of the first, and the result
  is the one pair \<^verbatim>\<open>{count: 1, value: 1}\<close>, whose counts add up to 1 and not to 3.
\<close>

theorem null_values_counterexample:
  "dataTableGetFilterList int_le
      [[(''_id'', BInt 1), (''tags'', BArray [BInt 1, BNull])],
       [(''_id'', BInt 2), (''tags'', BNull)]] ''tags'' =
     Inr [[(''count'', BInt 1), (''value'', BInt 1)]]
   \<and> spec_flattened
      [[(''_id'', BInt 1), (''tags'', BArray [BInt 1, BNull])],
       [(''_id'', BInt 2), (''tags'', BNull)]] ''tags'' = [BInt 1, BNull, BNull]
   \<and> sum_list (map count_of [[(''count'', BInt 1), (''value'', BInt 1)]]) \<noteq>
       int (length (spec_flattened
          [[(''_id'', BInt 1), (''tags'', BArray [BInt 1, BNull])],
           [(''_id'', BInt 2), (''tags'', BNull)]] ''tags''))"
  by code_simp

text \<open>
  An instance: three documents, one of them with a nested array and one with no value;
  no \<^verbatim>\<open>null\<close> is met, and the result counts the four flattened occurrences.
\<close>

theorem distinct_value_aggregation_witness:
  "\<exists>result.
      dataTableGetFilterList int_le
        [[(''_id'', BInt 1), (''tags'', BArray [BInt 3, BArray [BInt 1, BInt 3]])],
         [(''_id'', BInt 2), (''tags'', BInt 2)],
         [(''_id'', BInt 3)]] ''tags'' = Inr result
    \<and> distinct (map (field_or_null ''value'') result)
    \<and> set (map (field_or_null ''value'') result) = {BInt 1, BInt 2, BInt 3}
    \<and> sorted_wrt int_le (map (field_or_null ''value'') result)
    \<and> sum_list (map count_of result) = 4
    \<and> unwound
        [[(''_id'', BInt 1), (''tags'', BArray [BInt 3, BArray [BInt 1, BInt 3]])],
         [(''_id'', BInt 2), (''tags'', BInt 2)],
         [(''_id'', BInt 3)]] ''tags'' = [BInt 3, BInt 1, BInt 3, BInt 2]
    \<and> spec_flattened
        [[(''_id'', BInt 1), (''tags'', BArray [BInt 3, BArray [BInt 1, BInt 3]])],
         [(''_id'', BInt 2), (''tags'', BInt 2)],
         [(''_id'', BInt 3)]] ''tags'' = [BInt 3, BInt 1, BInt 3, BInt 2]"
proof -
  let ?coll = "[[(''_id'', BInt 1), (''tags'', BArray [BInt 3, BArray [BInt 1, BInt 3]])],
         [(''_id'', BInt 2), (''tags'', BInt 2)],
         [(''_id'', BInt 3)]]"
  have v: "valid_field_path ''tags''" by (simp add: valid_field_path_def)
  have t: "\<forall>x y. int_le x y \<or> int_le y x" by (auto simp: int_le_def)
  have tr: "\<forall>x y z. int_le x y \<and> int_le y z \<longrightarrow> int_le x z" by (auto simp: int_le_def)
  have "\<forall>k \<in> set [0..<6]. BNull \<notin> set ((flatten_level ^^ k) (field_values ?coll ''tags''))"
    by code_simp
  then have nf: "\<forall>k < 6. BNull \<notin> set ((flatten_level ^^ k) (field_values ?coll ''tags''))"
    by simp
  have sp: "spec_flattened ?coll ''tags'' = [BInt 3, BInt 1, BInt 3, BInt 2]" by code_simp
  from distinct_value_aggregation[OF v t tr, of ?coll] obtain result where
    r: "dataTableGetFilterList int_le ?coll ''tags'' = Inr result"
    and d: "distinct (map (field_or_null ''value'') result)"
    and s: "set (map (field_or_null ''value'') result) = set (unwound ?coll ''tags'')"
    and so: "sorted_wrt int_le (map (field_or_null ''value'') result)"
    and c: "sum_list (map count_of result) = int (length (unwound ?coll ''tags''))"
    and f: "(\<forall>k < 6. BNull \<notin> set ((flatten_level ^^ k) (field_values ?coll ''tags''))) \<longrightarrow>
         unwound ?coll ''tags'' = spec_flattened ?coll ''tags''"
    by blast
  from f nf sp have u: "unwound ?coll ''tags'' = [BInt 3, BInt 1, BInt 3, BInt 2]" by simp
  have "set (map (field_or_null ''value'') result) = {BInt 1, BInt 2, BInt 3}"
    unfolding s u by auto
  moreover have "sum_list (map count_of result) = 4" unfolding c u by simp
  ultimately show ?thesis using r d so u sp by blast
qed

end
